theory Spec2Isabelle
  imports Complex_Main "HOL-Library.Word"
begin

section \<open>tinysearch: a shallow embedding of \<open>tiny.py\<close>\<close>

text \<open>
  The embedding follows \<open>tiny.py\<close> function by function. What lies outside the program
  text is made explicit:
  \<^item> the directory walk \<open>dir.glob("**/*.txt")\<close> and \<open>read_text\<close> are the input: a list of
    \<open>(relative path, text)\<close> pairs in discovery order; a path is the string that
    \<open>csv.writer\<close> writes for it, the name of a file of the host;
  \<^item> the three files under \<open>.tiny\<close> are a value \<open>index_files\<close>; the two CSV files are
    kept as the rows handed to \<open>csv.writer\<close>, and \<open>Index_init\<close> says what \<open>csv.reader\<close>
    makes of them in a file opened in text mode: the newline convention of the host is a
    parameter \<open>newline\<close>;
  \<^item> text is ASCII: \<open>\w\<close> is letters, digits and underscore, \<open>lower\<close> maps \<open>A-Z\<close> to
    \<open>a-z\<close>; other characters separate words;
  \<^item> \<open>struct\<close>'s \<open>=\<close> prefix and \<open>array.tobytes\<close> use the byte order of the host, which
    is a parameter \<open>byteorder\<close> of the codec; \<open>array('I')\<close> items take four bytes;
  \<^item> a finite float is the real number it stands for, and the floating-point operations
    of the host, which round, are a parameter \<open>float_arith\<close> of \<open>search\<close>: nothing is
    assumed of them unless a statement says so. The floats of \<open>search\<close> are finite: they
    come from lengths of lists and from the sizes read from \<open>documents.csv\<close>, which stay
    far from the range of an infinity;
  \<^item> integers that reach the C library are those of a 64-bit host;
  \<^item> every \<open>raise\<close> of the program's own steps is a value \<open>Inl e\<close> of the result;
    failures of the host (a file that cannot be opened or written, a position beyond what
    the file system supports, memory that runs out) are outside the model.
\<close>

datatype error =
  OverflowError | StructError | ValueError | AssertionError
  | ZeroDivisionError | IndexError | OSError | CsvError

type_synonym byte = "8 word"

subsection \<open>Phase 1: split text into words\<close>

definition is_word_char :: "char \<Rightarrow> bool" where
  "is_word_char c =
     (let n = (of_char c :: nat)
      in (48 \<le> n \<and> n \<le> 57) \<or> (65 \<le> n \<and> n \<le> 90) \<or> n = 95 \<or> (97 \<le> n \<and> n \<le> 122))"

definition lower_char :: "char \<Rightarrow> char" where
  "lower_char c =
     (let n = (of_char c :: nat)
      in if 65 \<le> n \<and> n \<le> 90 then char_of (n + 32) else c)"

text \<open>\<open>re.findall(r"\w+", s)\<close>: the maximal runs of word characters, left to right;
  \<open>cur\<close> is the run being read.\<close>

fun findall_w :: "string \<Rightarrow> string \<Rightarrow> string list" where
  "findall_w [] cur = (if cur = [] then [] else [cur])"
| "findall_w (c # cs) cur =
     (if is_word_char c then findall_w cs (cur @ [c])
      else (if cur = [] then [] else [cur]) @ findall_w cs [])"

definition words :: "string \<Rightarrow> string list" where
  "words text = findall_w (map lower_char text) []"

subsection \<open>Phase 2: create an index\<close>

datatype Document = Document (filename: string) (size_doc: int)

datatype Hit = Hit (doc_id: nat) (offsets: "nat list")

text \<open>An insertion-ordered dictionary is an association list with distinct keys, in
  the order the keys were first stored. \<open>dd_apply f dflt k d\<close> is the update
  \<open>d[k] = f(d[k])\<close> of a \<open>defaultdict\<close> whose missing entries read as \<open>dflt\<close>: a key
  already there keeps its place, a new key goes to the end.\<close>

fun dd_apply :: "('v \<Rightarrow> 'v) \<Rightarrow> 'v \<Rightarrow> 'k \<Rightarrow> ('k \<times> 'v) list \<Rightarrow> ('k \<times> 'v) list" where
  "dd_apply f dflt k [] = [(k, f dflt)]"
| "dd_apply f dflt k ((k', v) # d) =
     (if k' = k then (k', f v) # d else (k', v) # dd_apply f dflt k d)"

text \<open>\<open>d[k] = v\<close> on a plain \<open>dict\<close>.\<close>

definition dict_set :: "'k \<Rightarrow> 'v \<Rightarrow> ('k \<times> 'v) list \<Rightarrow> ('k \<times> 'v) list" where
  "dict_set k v d = dd_apply (\<lambda>_. v) v k d"

text \<open>\<open>for i, word in enumerate(words(text)): doc_index[word].offsets.append(i)\<close>.
  Appending to an \<open>array('I')\<close> raises \<open>OverflowError\<close> for a value that does not fit
  in 32 bits.\<close>

fun index_words ::
  "nat \<Rightarrow> nat \<Rightarrow> string list \<Rightarrow> (string \<times> Hit) list \<Rightarrow> error + (string \<times> Hit) list" where
  "index_words d i [] doc_index = Inr doc_index"
| "index_words d i (word # rest) doc_index =
     (if i < 4294967296
      then index_words d (Suc i) rest
             (dd_apply (\<lambda>h. Hit (doc_id h) (offsets h @ [i])) (Hit d []) word doc_index)
      else Inl OverflowError)"

text \<open>\<open>for word, hit in doc_index.items(): index[word].append(hit)\<close>.\<close>

definition merge_doc_index ::
  "(string \<times> Hit) list \<Rightarrow> (string \<times> Hit list) list \<Rightarrow> (string \<times> Hit list) list" where
  "merge_doc_index doc_index index =
     fold (\<lambda>(word, hit) ix. dd_apply (\<lambda>hits. hits @ [hit]) [] word ix) doc_index index"

text \<open>The loop over the documents, with the state \<open>(documents, index)\<close>.\<close>

fun index_docs ::
  "(string \<times> string) list \<Rightarrow> Document list \<Rightarrow> (string \<times> Hit list) list
   \<Rightarrow> error + (Document list \<times> (string \<times> Hit list) list)" where
  "index_docs [] documents index = Inr (documents, index)"
| "index_docs ((path, text) # rest) documents index =
     (let doc_words = words text;
          doc = Document path (int (length doc_words));
          d = length documents
      in case index_words d 0 (words text) [] of
           Inl e \<Rightarrow> Inl e
         | Inr doc_index \<Rightarrow>
             index_docs rest (documents @ [doc]) (merge_doc_index doc_index index))"

subsection \<open>The codec of \<open>index.dat\<close>\<close>

datatype byteorder = LittleEndian | BigEndian

definition le_bytes :: "nat \<Rightarrow> byte list" where
  "le_bytes n = [of_nat n, of_nat (n div 256), of_nat (n div 65536), of_nat (n div 16777216)]"

definition le_value :: "byte list \<Rightarrow> nat" where
  "le_value bs =
     unat (bs ! 0) + 256 * unat (bs ! 1) + 65536 * unat (bs ! 2) + 16777216 * unat (bs ! 3)"

text \<open>One unsigned 32-bit item in the byte order of the host.\<close>

definition pack_I :: "byteorder \<Rightarrow> nat \<Rightarrow> byte list" where
  "pack_I bo n = (case bo of LittleEndian \<Rightarrow> le_bytes n | BigEndian \<Rightarrow> rev (le_bytes n))"

definition unpack_I :: "byteorder \<Rightarrow> byte list \<Rightarrow> nat" where
  "unpack_I bo bs = le_value (case bo of LittleEndian \<Rightarrow> bs | BigEndian \<Rightarrow> rev bs)"

text \<open>\<open>struct.pack("=II", a, b)\<close> raises \<open>struct.error\<close> for an argument out of range.\<close>

definition struct_pack_II :: "byteorder \<Rightarrow> nat \<Rightarrow> nat \<Rightarrow> error + byte list" where
  "struct_pack_II bo a b =
     (if a < 4294967296 \<and> b < 4294967296 then Inr (pack_I bo a @ pack_I bo b)
      else Inl StructError)"

text \<open>\<open>struct.unpack("=II", bs)\<close> raises \<open>struct.error\<close> unless \<open>bs\<close> has eight bytes.\<close>

definition struct_unpack_II :: "byteorder \<Rightarrow> byte list \<Rightarrow> error + (nat \<times> nat)" where
  "struct_unpack_II bo bs =
     (if length bs = 8 then Inr (unpack_I bo (take 4 bs), unpack_I bo (drop 4 bs))
      else Inl StructError)"

definition tobytes :: "byteorder \<Rightarrow> nat list \<Rightarrow> byte list" where
  "tobytes bo offs = concat (map (pack_I bo) offs)"

fun chunks4 :: "byte list \<Rightarrow> byte list list" where
  "chunks4 (a # b # c # d # bs) = [a, b, c, d] # chunks4 bs"
| "chunks4 bs = []"

text \<open>\<open>array.frombytes(bs)\<close> raises \<open>ValueError\<close> unless the length is a multiple of
  the item size.\<close>

definition frombytes :: "byteorder \<Rightarrow> byte list \<Rightarrow> error + nat list" where
  "frombytes bo bs =
     (if length bs mod 4 = 0 then Inr (map (unpack_I bo) (chunks4 bs)) else Inl ValueError)"

text \<open>The slice \<open>bs[a:b]\<close> for \<open>0 \<le> a\<close>, \<open>0 \<le> b\<close>: cut at the end of \<open>bs\<close>, never an error.\<close>

definition slice :: "'a list \<Rightarrow> nat \<Rightarrow> nat \<Rightarrow> 'a list" where
  "slice bs a b = take (b - a) (drop a bs)"

subsection \<open>Saving the index\<close>

text \<open>The inner loop \<open>for hit in hits\<close> of the writer, building \<open>bytes\<close>.\<close>

fun pack_hits :: "byteorder \<Rightarrow> Hit list \<Rightarrow> byte list \<Rightarrow> error + byte list" where
  "pack_hits bo [] bytes = Inr bytes"
| "pack_hits bo (hit # hits) bytes =
     (case struct_pack_II bo (doc_id hit) (length (offsets hit)) of
        Inl e \<Rightarrow> Inl e
      | Inr b \<Rightarrow> pack_hits bo hits ((bytes @ b) @ tobytes bo (offsets hit)))"

text \<open>The outer loop \<open>for word, hits in index.items()\<close>; \<open>f\<close> is what has been written
  to \<open>index.dat\<close> so far.\<close>

fun write_index ::
  "byteorder \<Rightarrow> (string \<times> Hit list) list \<Rightarrow> byte list \<Rightarrow> int \<Rightarrow> (string \<times> int \<times> int) list
   \<Rightarrow> error + (byte list \<times> (string \<times> int \<times> int) list)" where
  "write_index bo [] f start terms = Inr (f, terms)"
| "write_index bo ((word, hits) # rest) f start terms =
     (case pack_hits bo hits [] of
        Inl e \<Rightarrow> Inl e
      | Inr bytes \<Rightarrow>
          write_index bo rest (f @ bytes) (start + int (length bytes))
            (dict_set word (start, int (length bytes)) terms))"

datatype index_files =
  Files (documents_csv: "(string \<times> int) list")
        (index_dat: "byte list")
        (terms_csv: "(string \<times> int \<times> int) list")

definition make_index :: "byteorder \<Rightarrow> (string \<times> string) list \<Rightarrow> error + index_files" where
  "make_index bo dir =
     (case index_docs dir [] [] of
        Inl e \<Rightarrow> Inl e
      | Inr (documents, index) \<Rightarrow>
          (case write_index bo index [] 0 [] of
             Inl e \<Rightarrow> Inl e
           | Inr (f, terms) \<Rightarrow>
               Inr (Files (map (\<lambda>doc. (filename doc, size_doc doc)) documents) f terms)))"

subsection \<open>Phase 3: querying the index\<close>

datatype Index =
  Index (documents: "Document list")
        (terms: "string \<rightharpoonup> int \<times> int")
        (index_file: "byte list")

text \<open>The two tables are written by \<open>csv.writer\<close> to a file opened with \<open>open(path, 'w')\<close>
  and read by \<open>csv.reader\<close> from \<open>open(path)\<close>, both in text mode. The writer ends a row
  with \<open>\r\n\<close>. Writing in text mode turns \<open>\n\<close> into the line separator of the host;
  reading turns \<open>\r\n\<close> and a lone \<open>\r\<close> into \<open>\n\<close>.\<close>

datatype newline = LF | CRLF

definition text_write :: "newline \<Rightarrow> string \<Rightarrow> string" where
  "text_write nl s =
     (case nl of
        LF \<Rightarrow> s
      | CRLF \<Rightarrow> concat (map (\<lambda>c. if c = CHR 0x0A then [CHR 0x0D, CHR 0x0A] else [c]) s))"

fun read_newlines :: "bool \<Rightarrow> string \<Rightarrow> string" where
  "read_newlines after_cr [] = []"
| "read_newlines after_cr (c # cs) =
     (if c = CHR 0x0D then CHR 0x0A # read_newlines True cs
      else if c = CHR 0x0A \<and> after_cr then read_newlines False cs
      else c # read_newlines False cs)"

definition universal_newlines :: "string \<Rightarrow> string" where
  "universal_newlines s = read_newlines False s"

text \<open>A field that \<open>csv.writer\<close> wrote, as \<open>csv.reader\<close> returns it: quoting is undone, the
  line ends inside it are those the text layer made, and a field of more than 131072
  characters is a \<open>csv.Error\<close> (the field size limit of the module).\<close>

definition csv_field :: "newline \<Rightarrow> string \<Rightarrow> error + string" where
  "csv_field nl s =
     (let r = universal_newlines (text_write nl s)
      in if 131072 < length r then Inl CsvError else Inr r)"

text \<open>The two loops of \<open>Index.__init__\<close>. On a host whose line separator is \<open>\r\n\<close> every row
  was written as \<open>row\r\r\n\<close> and is followed by an empty row when read, at which the
  unpacking \<open>for [line, max_tf] in\<close> or \<open>for word, start, length in\<close> raises
  \<open>ValueError\<close>. The numbers of a row are the few digits \<open>make_index\<close> wrote.\<close>

fun read_documents ::
  "newline \<Rightarrow> (string \<times> int) list \<Rightarrow> Document list \<Rightarrow> error + Document list" where
  "read_documents nl [] docs = Inr docs"
| "read_documents nl ((line, max_tf) # rows) docs =
     (case csv_field nl line of
        Inl e \<Rightarrow> Inl e
      | Inr l \<Rightarrow>
          (if nl = CRLF then Inl ValueError
           else read_documents nl rows (docs @ [Document l max_tf])))"

fun read_terms ::
  "newline \<Rightarrow> (string \<times> int \<times> int) list \<Rightarrow> (string \<rightharpoonup> int \<times> int)
   \<Rightarrow> error + (string \<rightharpoonup> int \<times> int)" where
  "read_terms nl [] t = Inr t"
| "read_terms nl ((word, start, len) # rows) t =
     (case csv_field nl word of
        Inl e \<Rightarrow> Inl e
      | Inr w \<Rightarrow>
          (if nl = CRLF then Inl ValueError
           else read_terms nl rows (t(w \<mapsto> (start, len)))))"

definition Index_init :: "newline \<Rightarrow> index_files \<Rightarrow> error + Index" where
  "Index_init nl files =
     (case read_documents nl (documents_csv files) [] of
        Inl e \<Rightarrow> Inl e
      | Inr docs \<Rightarrow>
          (case read_terms nl (terms_csv files) Map.empty of
             Inl e \<Rightarrow> Inl e
           | Inr t \<Rightarrow> Inr (Index docs t (index_dat files))))"

text \<open>\<open>f.seek(start); f.read(length)\<close> on the binary file. \<open>seek\<close> raises \<open>OSError\<close> for a
  negative position and \<open>ValueError\<close> for one that does not fit a 64-bit offset; a position
  past the end is accepted and reads nothing. \<open>read\<close> raises \<open>ValueError\<close> for a length
  below \<open>-1\<close> and \<open>OverflowError\<close> for one that does not fit a byte string; \<open>-1\<close> reads to
  the end, and a read that meets the end of the file returns the bytes there are.\<close>

definition seek_read :: "byte list \<Rightarrow> int \<Rightarrow> int \<Rightarrow> error + byte list" where
  "seek_read file start len =
     (if start < 0 then Inl OSError
      else if 9223372036854775808 \<le> start then Inl ValueError
      else if len < - 1 then Inl ValueError
      else if 9223372036854775807 \<le> len then Inl OverflowError
      else let rest = drop (nat start) file
           in Inr (if len = - 1 then rest else take (nat len) rest))"

text \<open>The \<open>while\<close> loop of \<open>lookup\<close> and the \<open>assert\<close> after it.\<close>

function decode_hits :: "byteorder \<Rightarrow> byte list \<Rightarrow> nat \<Rightarrow> Hit list \<Rightarrow> error + Hit list" where
  "decode_hits bo bytes read_pos hits =
     (if read_pos < length bytes then
        (case struct_unpack_II bo (slice bytes read_pos (read_pos + 8)) of
           Inl e \<Rightarrow> Inl e
         | Inr (d, hit_count) \<Rightarrow>
             (case frombytes bo (slice bytes (read_pos + 8) (read_pos + 8 + 4 * hit_count)) of
                Inl e \<Rightarrow> Inl e
              | Inr offs \<Rightarrow>
                  decode_hits bo bytes (read_pos + 8 + 4 * hit_count) (hits @ [Hit d offs])))
      else if read_pos = length bytes then Inr hits
      else Inl AssertionError)"
  by pat_completeness auto
termination
  by (relation "measure (\<lambda>(bo, bytes, read_pos, hits). length bytes - read_pos)") auto

declare decode_hits.simps [simp del]

definition lookup :: "byteorder \<Rightarrow> Index \<Rightarrow> string \<Rightarrow> error + Hit list" where
  "lookup bo ix word =
     (case terms ix word of
        None \<Rightarrow> Inr []
      | Some (start, len) \<Rightarrow>
          (case seek_read (index_file ix) start len of
             Inl e \<Rightarrow> Inl e
           | Inr bytes \<Rightarrow> decode_hits bo bytes 0 []))"

text \<open>The floating-point operations \<open>search\<close> uses, as the host computes them: the true
  division \<open>a / b\<close> of two integers, the division of two floats, \<open>math.log\<close>, the product
  and the sum of two floats. \<open>exact_arith\<close> is the arithmetic that does not round.\<close>

datatype float_arith =
  Float_arith (int_truediv: "int \<Rightarrow> int \<Rightarrow> real")
              (float_truediv: "real \<Rightarrow> real \<Rightarrow> real")
              (math_log: "real \<Rightarrow> real")
              (float_mul: "real \<Rightarrow> real \<Rightarrow> real")
              (float_add: "real \<Rightarrow> real \<Rightarrow> real")

definition exact_arith :: float_arith where
  "exact_arith =
     Float_arith (\<lambda>a b. real_of_int a / real_of_int b) (\<lambda>x y. x / y) ln
       (\<lambda>x y. x * y) (\<lambda>x y. x + y)"

text \<open>The loop \<open>for hit in hits\<close> of \<open>search\<close>: \<open>self.documents[hit.doc_id]\<close> raises
  \<open>IndexError\<close> out of range, the division raises \<open>ZeroDivisionError\<close> for a size of 0.
  \<open>scores\<close> is a \<open>defaultdict(float)\<close>, so a new document starts from \<open>0.0\<close>.\<close>

fun score_hits ::
  "float_arith \<Rightarrow> Index \<Rightarrow> real \<Rightarrow> Hit list \<Rightarrow> (nat \<times> real) list
   \<Rightarrow> error + (nat \<times> real) list" where
  "score_hits fl ix idf [] scores = Inr scores"
| "score_hits fl ix idf (hit # hits) scores =
     (if length (documents ix) \<le> doc_id hit then Inl IndexError
      else if size_doc (documents ix ! doc_id hit) = 0 then Inl ZeroDivisionError
      else
        (let tf = int_truediv fl (1000 * int (length (offsets hit)))
                    (size_doc (documents ix ! doc_id hit))
         in score_hits fl ix idf hits
              (dd_apply (\<lambda>s. float_add fl s (float_mul fl tf idf)) 0 (doc_id hit) scores)))"

text \<open>The loop \<open>for word in words(query)\<close>. \<open>len(hits) / len(self.documents)\<close> raises
  \<open>ZeroDivisionError\<close> when there is no document, \<open>1 / df\<close> when \<open>df\<close> is \<open>0.0\<close>, and
  \<open>math.log\<close> raises \<open>ValueError\<close> unless its argument is positive.\<close>

fun search_words ::
  "float_arith \<Rightarrow> byteorder \<Rightarrow> Index \<Rightarrow> string list \<Rightarrow> (nat \<times> real) list
   \<Rightarrow> error + (nat \<times> real) list" where
  "search_words fl bo ix [] scores = Inr scores"
| "search_words fl bo ix (word # rest) scores =
     (case lookup bo ix word of
        Inl e \<Rightarrow> Inl e
      | Inr hits \<Rightarrow>
          (if hits \<noteq> [] then
             (if length (documents ix) = 0 then Inl ZeroDivisionError
              else
                (let df = int_truediv fl (int (length hits)) (int (length (documents ix)))
                 in if df = 0 then Inl ZeroDivisionError
                    else if float_truediv fl 1 df \<le> 0 then Inl ValueError
                    else
                      (let idf = math_log fl (float_truediv fl 1 df)
                       in case score_hits fl ix idf hits scores of
                            Inl e \<Rightarrow> Inl e
                          | Inr scores' \<Rightarrow> search_words fl bo ix rest scores')))
           else search_words fl bo ix rest scores))"

text \<open>\<open>sorted(..., key=lambda pair: pair[1], reverse=True)\<close> is stable: pairs of equal
  score keep the order of the dictionary. \<open>sort_key\<close> on the negated score is the same
  order.\<close>

definition search ::
  "float_arith \<Rightarrow> byteorder \<Rightarrow> Index \<Rightarrow> string \<Rightarrow> error + (string \<times> real) list" where
  "search fl bo ix query =
     (case search_words fl bo ix (words query) [] of
        Inl e \<Rightarrow> Inl e
      | Inr scores \<Rightarrow>
          (let results = sort_key (\<lambda>pair. - snd pair) scores
           in Inr (map (\<lambda>(d, score). (filename (documents ix ! d), score))
                     (take 10 results))))"

subsection \<open>Auxiliary notions for the statements\<close>

text \<open>Reading a \<open>defaultdict\<close>: the value stored for the key, or the default.\<close>

definition dd_get :: "'v \<Rightarrow> ('k \<times> 'v) list \<Rightarrow> 'k \<Rightarrow> 'v" where
  "dd_get dflt d k = (case map_of d k of None \<Rightarrow> dflt | Some v \<Rightarrow> v)"

text \<open>The quantities \<open>tf\<close> and \<open>idf\<close> of \<open>search\<close>, and the list of the products
  \<open>tf * idf\<close> that one occurrence of a word in the query adds, one after the other, to
  the score of document \<open>d\<close>: one for each posting of the word that names \<open>d\<close>.\<close>

definition tf_of :: "float_arith \<Rightarrow> Index \<Rightarrow> Hit \<Rightarrow> real" where
  "tf_of fl ix hit =
     int_truediv fl (1000 * int (length (offsets hit))) (size_doc (documents ix ! doc_id hit))"

definition idf_of :: "float_arith \<Rightarrow> Index \<Rightarrow> Hit list \<Rightarrow> real" where
  "idf_of fl ix hits =
     math_log fl (float_truediv fl 1
       (int_truediv fl (int (length hits)) (int (length (documents ix)))))"

definition contributions :: "float_arith \<Rightarrow> byteorder \<Rightarrow> Index \<Rightarrow> string \<Rightarrow> nat \<Rightarrow> real list" where
  "contributions fl bo ix word d =
     (case lookup bo ix word of
        Inl e \<Rightarrow> []
      | Inr hits \<Rightarrow>
          map (\<lambda>h. float_mul fl (tf_of fl ix h) (idf_of fl ix hits))
            (filter (\<lambda>h. doc_id h = d) hits))"

text \<open>What \<open>search\<close> on an index of \<open>n\<close> documents needs of the arithmetic to get past
  \<open>1 / df\<close> and \<open>math.log\<close>: the quotient of two positive integers up to \<open>n\<close>, the smaller
  over the larger, is not \<open>0.0\<close> and has a positive reciprocal.\<close>

definition quotients_positive :: "float_arith \<Rightarrow> nat \<Rightarrow> bool" where
  "quotients_positive fl n =
     (\<forall>a b. 0 < a \<and> a \<le> b \<and> b \<le> int n \<longrightarrow>
        int_truediv fl a b \<noteq> 0 \<and> 0 < float_truediv fl 1 (int_truediv fl a b))"

text \<open>The bytes of one posting and of a postings list in \<open>index.dat\<close>, as the writer
  lays them out; \<open>fits32\<close> says that the fields of a posting fit in 32 bits.\<close>

definition hit_bytes :: "byteorder \<Rightarrow> Hit \<Rightarrow> byte list" where
  "hit_bytes bo h = pack_I bo (doc_id h) @ pack_I bo (length (offsets h)) @ tobytes bo (offsets h)"

definition hits_bytes :: "byteorder \<Rightarrow> Hit list \<Rightarrow> byte list" where
  "hits_bytes bo hs = concat (map (hit_bytes bo) hs)"

definition fits32 :: "Hit \<Rightarrow> bool" where
  "fits32 h = (doc_id h < 4294967296 \<and> length (offsets h) < 4294967296
                \<and> list_all (\<lambda>i. i < 4294967296) (offsets h))"

text \<open>What the index is to hold, said without the loops: \<open>positions w ws\<close> are the
  0-based places of \<open>w\<close> in the token list \<open>ws\<close>; \<open>postings dir w\<close> has one posting for
  each document whose text contains \<open>w\<close>, in the order of the documents;
  \<open>first_seen ws\<close> lists each element of \<open>ws\<close> once, in the order of first occurrence.\<close>

definition positions :: "'a \<Rightarrow> 'a list \<Rightarrow> nat list" where
  "positions w ws = [i \<leftarrow> [0..<length ws]. ws ! i = w]"

definition postings :: "(string \<times> string) list \<Rightarrow> string \<Rightarrow> Hit list" where
  "postings dir w =
     [Hit d (positions w (words (snd (dir ! d)))).
        d \<leftarrow> [0..<length dir], w \<in> set (words (snd (dir ! d)))]"

fun first_seen :: "'a list \<Rightarrow> 'a list" where
  "first_seen [] = []"
| "first_seen (x # xs) = x # filter (\<lambda>y. y \<noteq> x) (first_seen xs)"

text \<open>The same by recursion, counting from \<open>i\<close> and from document \<open>d\<close>, for the proofs
  about the loops.\<close>

fun positions_from :: "nat \<Rightarrow> 'a \<Rightarrow> 'a list \<Rightarrow> nat list" where
  "positions_from i w [] = []"
| "positions_from i w (x # xs) = (if x = w then [i] else []) @ positions_from (Suc i) w xs"

fun postings_from :: "nat \<Rightarrow> string \<Rightarrow> (string \<times> string) list \<Rightarrow> Hit list" where
  "postings_from d w [] = []"
| "postings_from d w ((path, text) # rest) =
     (if w \<in> set (words text) then [Hit d (positions_from 0 w (words text))] else [])
     @ postings_from (Suc d) w rest"

definition add_key :: "'a \<Rightarrow> 'a list \<Rightarrow> 'a list" where
  "add_key k ks = (if k \<in> set ks then ks else ks @ [k])"

text \<open>The index that \<open>make_index\<close> holds in memory after the loop over the documents,
  the bytes it writes for it, and the rows of the term directory from byte \<open>s\<close> on.\<close>

definition index_of :: "(string \<times> string) list \<Rightarrow> (string \<times> Hit list) list" where
  "index_of dir =
     map (\<lambda>w. (w, postings dir w)) (first_seen (concat (map (\<lambda>(p, t). words t) dir)))"

definition blob_of :: "byteorder \<Rightarrow> (string \<times> Hit list) list \<Rightarrow> byte list" where
  "blob_of bo idx = concat (map (\<lambda>(w, hits). hits_bytes bo hits) idx)"

fun rows_from :: "byteorder \<Rightarrow> int \<Rightarrow> (string \<times> Hit list) list \<Rightarrow> (string \<times> int \<times> int) list" where
  "rows_from bo s [] = []"
| "rows_from bo s ((w, hits) # rest) =
     (w, s, int (length (hits_bytes bo hits)))
     # rows_from bo (s + int (length (hits_bytes bo hits))) rest"

text \<open>The columns \<open>byte_offset\<close> and \<open>byte_length\<close> of \<open>terms.csv\<close>.\<close>

definition byte_offsets :: "index_files \<Rightarrow> int list" where
  "byte_offsets files = map (\<lambda>(w, start, len). start) (terms_csv files)"

definition byte_lengths :: "index_files \<Rightarrow> int list" where
  "byte_lengths files = map (\<lambda>(w, start, len). len) (terms_csv files)"

subsection \<open>Small directories\<close>

text \<open>The one-document example of the specification, and a directory of two documents,
  each with the files \<open>make_index\<close> writes for it on a little-endian host and the index
  that \<open>Index_init\<close> loads from them.\<close>

definition spec_dir :: "(string \<times> string) list" where
  "spec_dir = [(''doc.txt'', ''a b a'')]"


definition two_dir :: "(string \<times> string) list" where
  "two_dir = [(''d0.txt'', ''a b''), (''d1.txt'', ''a'')]"

definition two_files :: index_files where
  "two_files =
     Files [(''d0.txt'', 2), (''d1.txt'', 1)]
       [0, 0, 0, 0, 1, 0, 0, 0, 0, 0, 0, 0, 1, 0, 0, 0, 1, 0, 0, 0, 0, 0, 0, 0,
        0, 0, 0, 0, 1, 0, 0, 0, 1, 0, 0, 0]
       [(''a'', 0, 24), (''b'', 24, 12)]"


definition two_index :: Index where
  "two_index =
     Index [Document ''d0.txt'' 2, Document ''d1.txt'' 1]
       [''a'' \<mapsto> (0, 24), ''b'' \<mapsto> (24, 12)] (index_dat two_files)"



section \<open>Properties\<close>

subsection \<open>Dictionaries\<close>

lemma dd_apply_keys:
  "map fst (dd_apply f dflt k d) = (if k \<in> fst ` set d then map fst d else map fst d @ [k])"
  by (induction d) (fastforce+)

lemma dd_apply_key_set: "fst ` set (dd_apply f dflt k d) = insert k (fst ` set d)"
proof -
  have "set (map fst (dd_apply f dflt k d)) = insert k (set (map fst d))"
    unfolding dd_apply_keys by auto
  then show ?thesis by simp
qed

lemma dd_apply_distinct: "distinct (map fst d) \<Longrightarrow> distinct (map fst (dd_apply f dflt k d))"
  by (simp add: dd_apply_keys)

lemma dd_apply_map_of:
  "map_of (dd_apply f dflt k d) = (map_of d)(k \<mapsto> f (dd_get dflt d k))"
  by (induction d) (auto simp: dd_get_def fun_eq_iff)

lemma dd_apply_get:
  "dd_get dflt (dd_apply f dflt k d) k' = (if k' = k then f (dd_get dflt d k) else dd_get dflt d k')"
  by (simp add: dd_get_def [of _ "dd_apply f dflt k d"] dd_apply_map_of) (simp add: dd_get_def)

lemma dd_get_mem: "distinct (map fst d) \<Longrightarrow> (k, v) \<in> set d \<Longrightarrow> dd_get dflt d k = v"
  by (simp add: dd_get_def)

lemma dd_apply_length: "length d \<le> length (dd_apply f dflt k d)"
  by (induction d) auto

subsection \<open>The scoring loops\<close>

lemma search_words_oov:
  "\<forall>w \<in> set ws. terms ix w = None \<Longrightarrow> search_words fl bo ix ws scores = Inr scores"
  by (induction ws) (auto simp: lookup_def)

lemma score_hits_keys:
  "score_hits fl ix idf hits scores = Inr scores' \<Longrightarrow>
   fst ` set scores' = fst ` set scores \<union> doc_id ` set hits \<and>
   (\<forall>h \<in> set hits. doc_id h < length (documents ix) \<and> size_doc (documents ix ! doc_id h) \<noteq> 0)"
proof (induction hits arbitrary: scores)
  case Nil
  then show ?case by simp
next
  case (Cons h hits)
  then show ?case
    by (auto simp: Let_def dd_apply_key_set split: if_splits)
qed

lemma score_hits_distinct:
  "score_hits fl ix idf hits scores = Inr scores' \<Longrightarrow> distinct (map fst scores)
   \<Longrightarrow> distinct (map fst scores')"
proof (induction hits arbitrary: scores)
  case Nil
  then show ?case by simp
next
  case (Cons h hits)
  then show ?case
    by (auto simp: Let_def dd_apply_distinct split: if_splits)
qed

lemma score_hits_get:
  "score_hits fl ix i hits scores = Inr scores' \<Longrightarrow>
   dd_get 0 scores' d =
     foldl (float_add fl) (dd_get 0 scores d)
       (map (\<lambda>h. float_mul fl (tf_of fl ix h) i) (filter (\<lambda>h. doc_id h = d) hits))"
proof (induction hits arbitrary: scores)
  case Nil
  then show ?case by simp
next
  case (Cons h hits)
  then show ?case
    by (auto simp: Let_def dd_apply_get tf_of_def split: if_splits)
qed

lemma score_hits_total:
  "\<forall>h \<in> set hits. doc_id h < length (documents ix) \<and> size_doc (documents ix ! doc_id h) \<noteq> 0
   \<Longrightarrow> \<exists>scores'. score_hits fl ix i hits scores = Inr scores'"
  by (induction hits arbitrary: scores) (auto simp: Let_def)

text \<open>One turn of the loop over the words of the query, when the loop comes to an end.\<close>

lemma search_words_Cons:
  assumes "search_words fl bo ix (w # ws) scores = Inr scores'"
  shows "\<exists>hits sc. lookup bo ix w = Inr hits
    \<and> (hits = [] \<longrightarrow> sc = scores)
    \<and> (hits \<noteq> [] \<longrightarrow> score_hits fl ix (idf_of fl ix hits) hits scores = Inr sc)
    \<and> search_words fl bo ix ws sc = Inr scores'"
proof (cases "lookup bo ix w")
  case (Inl e)
  with assms show ?thesis by simp
next
  case (Inr hits)
  show ?thesis
  proof (cases "hits = []")
    case True
    with Inr assms have "search_words fl bo ix ws scores = Inr scores'" by simp
    with Inr True show ?thesis by simp
  next
    case False
    with Inr assms obtain sc where
      "score_hits fl ix (idf_of fl ix hits) hits scores = Inr sc"
      and "search_words fl bo ix ws sc = Inr scores'"
      by (auto simp: Let_def idf_of_def split: if_splits sum.splits)
    with Inr False show ?thesis by simp
  qed
qed

lemma search_words_get:
  "search_words fl bo ix ws scores = Inr scores' \<Longrightarrow>
   dd_get 0 scores' d =
     foldl (float_add fl) (dd_get 0 scores d)
       (concat (map (\<lambda>w. contributions fl bo ix w d) ws))"
proof (induction ws arbitrary: scores)
  case Nil
  then show ?case by simp
next
  case (Cons w ws)
  from search_words_Cons [OF Cons.prems] obtain hits sc where lk: "lookup bo ix w = Inr hits"
    and e: "hits = [] \<Longrightarrow> sc = scores"
    and s: "hits \<noteq> [] \<Longrightarrow> score_hits fl ix (idf_of fl ix hits) hits scores = Inr sc"
    and r: "search_words fl bo ix ws sc = Inr scores'"
    by blast
  have "dd_get 0 sc d = foldl (float_add fl) (dd_get 0 scores d) (contributions fl bo ix w d)"
  proof (cases "hits = []")
    case True
    with e lk show ?thesis by (simp add: contributions_def)
  next
    case False
    from score_hits_get [OF s [OF False], of d] lk show ?thesis
      by (simp add: contributions_def)
  qed
  with Cons.IH [OF r] show ?case by simp
qed

lemma search_words_distinct:
  "search_words fl bo ix ws scores = Inr scores' \<Longrightarrow> distinct (map fst scores)
   \<Longrightarrow> distinct (map fst scores')"
proof (induction ws arbitrary: scores)
  case Nil
  then show ?case by simp
next
  case (Cons w ws)
  from search_words_Cons [OF Cons.prems(1)] obtain hits sc where
    e: "hits = [] \<Longrightarrow> sc = scores"
    and s: "hits \<noteq> [] \<Longrightarrow> score_hits fl ix (idf_of fl ix hits) hits scores = Inr sc"
    and r: "search_words fl bo ix ws sc = Inr scores'"
    by blast
  have "distinct (map fst sc)"
    using e s Cons.prems(2) score_hits_distinct by (cases "hits = []") auto
  with Cons.IH [OF r] show ?case .
qed

text \<open>The documents in the accumulator are those named by the postings of the words of
  the query, and all of them passed the bounds check and the division.\<close>

lemma search_words_keys:
  "search_words fl bo ix ws scores = Inr scores' \<Longrightarrow>
   fst ` set scores' =
     fst ` set scores
     \<union> {d. \<exists>w \<in> set ws. \<exists>hits. lookup bo ix w = Inr hits \<and> d \<in> doc_id ` set hits}"
proof (induction ws arbitrary: scores)
  case Nil
  then show ?case by simp
next
  case (Cons w ws)
  from search_words_Cons [OF Cons.prems] obtain hits sc where lk: "lookup bo ix w = Inr hits"
    and e: "hits = [] \<Longrightarrow> sc = scores"
    and s: "hits \<noteq> [] \<Longrightarrow> score_hits fl ix (idf_of fl ix hits) hits scores = Inr sc"
    and r: "search_words fl bo ix ws sc = Inr scores'"
    by blast
  have k: "fst ` set sc = fst ` set scores \<union> doc_id ` set hits"
  proof (cases "hits = []")
    case True
    with e show ?thesis by simp
  next
    case False
    from score_hits_keys [OF s [OF False]] show ?thesis by simp
  qed
  have "{d. \<exists>v \<in> set (w # ws). \<exists>hs. lookup bo ix v = Inr hs \<and> d \<in> doc_id ` set hs}
        = doc_id ` set hits
          \<union> {d. \<exists>v \<in> set ws. \<exists>hs. lookup bo ix v = Inr hs \<and> d \<in> doc_id ` set hs}"
    using lk by auto
  with Cons.IH [OF r] k show ?case by auto
qed


lemma sum_list_count_real:
  "(\<Sum>x \<leftarrow> xs. (f x :: real)) = (\<Sum>x \<in> set xs. real (count_list xs x) * f x)"
proof (induction xs)
  case Nil
  then show ?case by simp
next
  case (Cons a xs)
  show ?case
  proof (cases "a \<in> set xs")
    case True
    then have s: "set xs = insert a (set xs - {a})" by blast
    have "(\<Sum>x \<leftarrow> a # xs. f x) = f a + (\<Sum>x \<in> set xs. real (count_list xs x) * f x)"
      by (simp add: Cons.IH)
    also have "\<dots> = f a + (real (count_list xs a) * f a + (\<Sum>x \<in> set xs - {a}. real (count_list xs x) * f x))"
      using True by (simp add: sum.remove)
    also have "\<dots> = (real (count_list (a # xs) a) * f a + (\<Sum>x \<in> set xs - {a}. real (count_list (a # xs) x) * f x))"
    proof -
      have "(\<Sum>x \<in> set xs - {a}. real (count_list xs x) * f x)
            = (\<Sum>x \<in> set xs - {a}. real (count_list (a # xs) x) * f x)"
        by (rule sum.cong) auto
      then show ?thesis by (simp add: algebra_simps)
    qed
    also have "\<dots> = (\<Sum>x \<in> set (a # xs). real (count_list (a # xs) x) * f x)"
      using True by (simp add: sum.remove insert_absorb del: count_list.simps)
    finally show ?thesis .
  next
    case False
    then have "\<And>x. x \<in> set xs \<Longrightarrow> a \<noteq> x" by blast
    then show ?thesis using False by (simp add: Cons.IH)
  qed
qed

lemma foldl_add_sum_list: "foldl (\<lambda>x y. x + y) (a :: real) xs = a + sum_list xs"
  by (induction xs arbitrary: a) simp_all

text \<open>What \<open>search\<close> is made of: the accumulator, ranked and cut at 10.\<close>

lemma search_result:
  assumes "search fl bo ix query = Inr res"
  obtains scores where "search_words fl bo ix (words query) [] = Inr scores"
    and "res = map (\<lambda>(d, score). (filename (documents ix ! d), score))
                 (take 10 (sort_key (\<lambda>pair. - snd pair) scores))"
    and "distinct (map fst scores)"
proof -
  from assms obtain scores where sc: "search_words fl bo ix (words query) [] = Inr scores"
    and res: "res = map (\<lambda>(d, score). (filename (documents ix ! d), score))
                    (take 10 (sort_key (\<lambda>pair. - snd pair) scores))"
    by (auto simp: search_def Let_def split: sum.splits)
  have "distinct (map fst scores)" using search_words_distinct [OF sc] by simp
  with sc res that show ?thesis by blast
qed

subsection \<open>Words outside the vocabulary\<close>

text \<open>Claim C9. For a word that is not a key of the term directory, \<open>lookup\<close> returns the
  empty list and raises nothing; a query all of whose words are outside the vocabulary
  makes \<open>search\<close> return the empty result list, not an error.\<close>

theorem lookup_absent_empty:
  "(terms ix word = None \<longrightarrow> lookup bo ix word = Inr []) \<and>
   ((\<forall>w \<in> set (words query). terms ix w = None) \<longrightarrow> search fl bo ix query = Inr [])"
proof (intro conjI impI)
  assume "terms ix word = None"
  then show "lookup bo ix word = Inr []" by (simp add: lookup_def)
next
  assume "\<forall>w \<in> set (words query). terms ix w = None"
  then have "search_words fl bo ix (words query) [] = Inr []" by (rule search_words_oov)
  then show "search fl bo ix query = Inr []" by (simp add: search_def)
qed

text \<open>An index with no document and no term, asked for a word and for a two-word query.\<close>

theorem lookup_absent_empty_witness:
  "terms (Index [] Map.empty []) ''zebra'' = None
   \<and> lookup LittleEndian (Index [] Map.empty []) ''zebra'' = Inr []
   \<and> search exact_arith LittleEndian (Index [] Map.empty []) ''zebra crossing'' = Inr []"
  using lookup_absent_empty [of "Index [] Map.empty []" "''zebra''" LittleEndian "''zebra crossing''" exact_arith]
  by simp

subsection \<open>Ranking\<close>

lemma sorted_desc_sort_key:
  "sorted_wrt (\<lambda>a b. snd b \<le> (snd a :: real)) (sort_key (\<lambda>pair. - snd pair) xs)"
proof -
  have "sorted (map (\<lambda>pair. - snd pair) (sort_key (\<lambda>pair. - snd pair) xs))"
    by (rule sorted_sort_key)
  then show ?thesis
    by (simp add: sorted_map)
qed

lemma sorted_wrt_take_drop:
  "sorted_wrt R xs \<Longrightarrow> a \<in> set (take n xs) \<Longrightarrow> b \<in> set (drop n xs) \<Longrightarrow> R a b"
proof -
  assume s: "sorted_wrt R xs" and a: "a \<in> set (take n xs)" and b: "b \<in> set (drop n xs)"
  from s have "sorted_wrt R (take n xs @ drop n xs)" by simp
  with a b show ?thesis unfolding sorted_wrt_append by blast
qed

text \<open>Claim C4. Whenever \<open>search\<close> returns, it returns at most 10 pairs, in descending
  order of score. The pairs are the first \<open>min 10 n\<close> of the \<open>n\<close> documents that
  were scored: all of them when \<open>n \<le> 10\<close>, and otherwise no document left out has a
  higher score than a returned one.\<close>

theorem search_top10:
  assumes "search fl bo ix query = Inr res"
  shows "length res \<le> 10 \<and> sorted_wrt (\<lambda>a b. snd b \<le> snd a) res \<and>
    (\<exists>scores. search_words fl bo ix (words query) [] = Inr scores \<and> distinct (map fst scores)
       \<and> length res = min 10 (length scores)
       \<and> set res \<subseteq> (\<lambda>(d, s). (filename (documents ix ! d), s)) ` set scores
       \<and> (length scores \<le> 10 \<longrightarrow>
            set res = (\<lambda>(d, s). (filename (documents ix ! d), s)) ` set scores)
       \<and> (\<forall>(d, s) \<in> set scores. (filename (documents ix ! d), s) \<in> set res
            \<or> (\<forall>(p, s') \<in> set res. s \<le> s')))"
proof -
  from assms obtain scores where sc: "search_words fl bo ix (words query) [] = Inr scores"
    and res: "res = map (\<lambda>(d, score). (filename (documents ix ! d), score))
                    (take 10 (sort_key (\<lambda>pair. - snd pair) scores))"
    by (auto simp: search_def Let_def split: sum.splits)
  let ?srt = "sort_key (\<lambda>pair. - snd pair) scores"
  let ?f = "\<lambda>(d, score). (filename (documents ix ! d), score :: real)"
  have srt: "sorted_wrt (\<lambda>a b. snd b \<le> snd a) ?srt" by (rule sorted_desc_sort_key)
  have len: "length res \<le> 10" by (simp add: res)
  have "sorted_wrt (\<lambda>a b. snd b \<le> snd a) (take 10 ?srt)"
    using srt by (rule sorted_wrt_take)
  then have sorted: "sorted_wrt (\<lambda>a b. snd b \<le> snd a) res"
    unfolding res sorted_wrt_map by (simp add: case_prod_unfold)
  have dist: "distinct (map fst scores)"
    using search_words_distinct [OF sc] by simp
  have len2: "length res = min 10 (length scores)" by (simp add: res min.commute)
  have sub: "set res \<subseteq> ?f ` set scores"
  proof -
    have "set (take 10 ?srt) \<subseteq> set ?srt" by (rule set_take_subset)
    then show ?thesis unfolding res by auto
  qed
  have all: "length scores \<le> 10 \<longrightarrow> set res = ?f ` set scores"
    by (simp add: res)
  have top: "\<forall>(d, s) \<in> set scores. (filename (documents ix ! d), s) \<in> set res
            \<or> (\<forall>(p, s') \<in> set res. s \<le> s')"
  proof (clarify)
    fix d s p s'
    assume ds: "(d, s) \<in> set scores" and nin: "(filename (documents ix ! d), s) \<notin> set res"
      and ps: "(p, s') \<in> set res"
    have "set ?srt = set (take 10 ?srt) \<union> set (drop 10 ?srt)"
      by (metis append_take_drop_id set_append)
    with ds have "(d, s) \<in> set (take 10 ?srt) \<union> set (drop 10 ?srt)" by simp
    moreover from nin have "(d, s) \<notin> set (take 10 ?srt)" unfolding res by force
    ultimately have dr: "(d, s) \<in> set (drop 10 ?srt)" by blast
    from ps obtain d' where tk: "(d', s') \<in> set (take 10 ?srt)" unfolding res by auto
    from sorted_wrt_take_drop [OF srt tk dr] show "s \<le> s'" by simp
  qed
  from len sorted sc dist len2 sub all top show ?thesis by blast
qed

lemma sum_list_concat_map:
  "sum_list (concat (map f xs)) = (\<Sum>x \<leftarrow> xs. sum_list (f x :: real list))"
  by (induction xs) simp_all

lemma ranked_member:
  fixes scores :: "(nat \<times> real) list"
  assumes "(d, s) \<in> set scores"
    and "res = map (\<lambda>(d, score). (filename (documents ix ! d), score))
                 (take 10 (sort_key (\<lambda>pair. - snd pair) scores))"
  shows "length scores \<le> 10 \<longrightarrow> (filename (documents ix ! d), s) \<in> set res"
    and "(filename (documents ix ! d), s) \<in> set res \<or> (\<forall>(p, s') \<in> set res. s \<le> s')"
proof -
  let ?srt = "sort_key (\<lambda>pair. - snd pair) scores"
  have srt: "sorted_wrt (\<lambda>a b. snd b \<le> snd a) ?srt" by (rule sorted_desc_sort_key)
  show "length scores \<le> 10 \<longrightarrow> (filename (documents ix ! d), s) \<in> set res"
  proof
    assume "length scores \<le> 10"
    then have "(d, s) \<in> set (take 10 ?srt)" using assms(1) by simp
    then show "(filename (documents ix ! d), s) \<in> set res" unfolding assms(2) by force
  qed
  show "(filename (documents ix ! d), s) \<in> set res \<or> (\<forall>(p, s') \<in> set res. s \<le> s')"
  proof (cases "(d, s) \<in> set (take 10 ?srt)")
    case True
    then have "(filename (documents ix ! d), s) \<in> set res" unfolding assms(2) by force
    then show ?thesis ..
  next
    case False
    have "set ?srt = set (take 10 ?srt) \<union> set (drop 10 ?srt)"
      by (metis append_take_drop_id set_append)
    with assms(1) False have dr: "(d, s) \<in> set (drop 10 ?srt)" by simp
    have "s \<le> s'" if "(p, s') \<in> set res" for p s'
    proof -
      from that obtain d' where tk: "(d', s') \<in> set (take 10 ?srt)" unfolding assms(2) by auto
      from sorted_wrt_take_drop [OF srt tk dr] show ?thesis by simp
    qed
    then show ?thesis by blast
  qed
qed

text \<open>Claim C7. The query is not de-duplicated: \<open>search\<close> goes through the words of the
  query one occurrence after the other, and the score it accumulates for a document is
  the floating-point sum, from \<open>0.0\<close> and in the order of the query, of the \<open>tf * idf\<close>
  contributions of every occurrence; a word that occurs \<open>k\<close> times in the query
  contributes \<open>k\<close> times. Every document named by a posting of a word of the query is in
  the accumulator, and no other. Where the additions are exact, the score is the sum over
  the distinct words of the number of occurrences times the contribution.\<close>

theorem search_counts_occurrences:
  assumes "search fl bo ix query = Inr res"
  shows "\<exists>scores. search_words fl bo ix (words query) [] = Inr scores
    \<and> res = map (\<lambda>(d, score). (filename (documents ix ! d), score))
               (take 10 (sort_key (\<lambda>pair. - snd pair) scores))
    \<and> distinct (map fst scores)
    \<and> (\<forall>d. d \<in> fst ` set scores \<longleftrightarrow>
          (\<exists>w \<in> set (words query). \<exists>hits. lookup bo ix w = Inr hits \<and> d \<in> doc_id ` set hits))
    \<and> (\<forall>(d, s) \<in> set scores.
          s = foldl (float_add fl) 0
                (concat (map (\<lambda>w. contributions fl bo ix w d) (words query))))
    \<and> (float_add fl = (\<lambda>x y. x + y) \<longrightarrow>
          (\<forall>(d, s) \<in> set scores.
             s = (\<Sum>w \<in> set (words query).
                    real (count_list (words query) w) * sum_list (contributions fl bo ix w d))))"
proof -
  from assms obtain scores where sc: "search_words fl bo ix (words query) [] = Inr scores"
    and res: "res = map (\<lambda>(d, score). (filename (documents ix ! d), score))
                    (take 10 (sort_key (\<lambda>pair. - snd pair) scores))"
    and dist: "distinct (map fst scores)"
    by (rule search_result)
  have keys: "d \<in> fst ` set scores \<longleftrightarrow>
          (\<exists>w \<in> set (words query). \<exists>hits. lookup bo ix w = Inr hits \<and> d \<in> doc_id ` set hits)"
    for d
    using search_words_keys [OF sc] by auto
  have val: "s = foldl (float_add fl) 0
                (concat (map (\<lambda>w. contributions fl bo ix w d) (words query)))"
    if "(d, s) \<in> set scores" for d s
  proof -
    have "dd_get 0 scores d = s" using dist that by (rule dd_get_mem)
    with search_words_get [OF sc, of d] show ?thesis by (simp add: dd_get_def)
  qed
  have exact: "s = (\<Sum>w \<in> set (words query).
                    real (count_list (words query) w) * sum_list (contributions fl bo ix w d))"
    if "(d, s) \<in> set scores" and ex: "float_add fl = (\<lambda>x y. x + y)" for d s
  proof -
    have "s = sum_list (concat (map (\<lambda>w. contributions fl bo ix w d) (words query)))"
      using val [OF that(1)] by (simp add: ex foldl_add_sum_list)
    also have "\<dots> = (\<Sum>w \<leftarrow> words query. sum_list (contributions fl bo ix w d))"
      by (rule sum_list_concat_map)
    finally show ?thesis by (simp only: sum_list_count_real)
  qed
  from sc res dist keys val exact show ?thesis by blast
qed

text \<open>Claim C3, as the code has it. \<open>search\<close> has no filter on the score. A document named
  by a posting of a word of the query is in the accumulator with the floating-point sum of
  its contributions, zero or not; it is returned when at most 10 documents were scored, and
  in any case it is left out only if no returned document has a lower score.\<close>

theorem search_keeps_zero_scores:
  assumes "search fl bo ix query = Inr res"
    and "w \<in> set (words query)"
    and "lookup bo ix w = Inr hits"
    and "h \<in> set hits"
  shows "\<exists>scores s. search_words fl bo ix (words query) [] = Inr scores
    \<and> (doc_id h, s) \<in> set scores
    \<and> s = foldl (float_add fl) 0
            (concat (map (\<lambda>w. contributions fl bo ix w (doc_id h)) (words query)))
    \<and> (length scores \<le> 10 \<longrightarrow> (filename (documents ix ! doc_id h), s) \<in> set res)
    \<and> ((filename (documents ix ! doc_id h), s) \<in> set res \<or> (\<forall>(p, s') \<in> set res. s \<le> s'))"
proof -
  from assms(1) obtain scores where sc: "search_words fl bo ix (words query) [] = Inr scores"
    and res: "res = map (\<lambda>(d, score). (filename (documents ix ! d), score))
                    (take 10 (sort_key (\<lambda>pair. - snd pair) scores))"
    and dist: "distinct (map fst scores)"
    by (rule search_result)
  have "doc_id h \<in> fst ` set scores"
    using search_words_keys [OF sc] assms(2,3,4) by auto
  then obtain s where m: "(doc_id h, s) \<in> set scores" by auto
  have "dd_get 0 scores (doc_id h) = s" using dist m by (rule dd_get_mem)
  with search_words_get [OF sc, of "doc_id h"] have
    val: "s = foldl (float_add fl) 0
            (concat (map (\<lambda>w. contributions fl bo ix w (doc_id h)) (words query)))"
    by (simp add: dd_get_def)
  from ranked_member [OF m res] sc m val show ?thesis by blast
qed

subsection \<open>The codec\<close>

lemma length_le_bytes: "length (le_bytes n) = 4"
  by (simp add: le_bytes_def)

lemma le_value_le_bytes:
  assumes "n < 4294967296"
  shows "le_value (le_bytes n) = n"
proof -
  define q1 where "q1 = n div 256"
  define q2 where "q2 = q1 div 256"
  define q3 where "q3 = q2 div 256"
  have d2: "n div 65536 = q2" unfolding q2_def q1_def by (simp add: div_mult2_eq [symmetric])
  have d3: "n div 16777216 = q3"
    unfolding q3_def q2_def q1_def by (simp add: div_mult2_eq [symmetric])
  have "q3 < 256" using assms unfolding d3 [symmetric] by simp
  then have m3: "q3 mod 256 = q3" by simp
  have e1: "n = n mod 256 + 256 * q1" unfolding q1_def by simp
  have e2: "q1 = q1 mod 256 + 256 * q2" unfolding q2_def by simp
  have e3: "q2 = q2 mod 256 + 256 * q3" unfolding q3_def by simp
  have "le_value (le_bytes n) = n mod 256 + 256 * (q1 mod 256) + 65536 * (q2 mod 256) + 16777216 * q3"
    unfolding le_value_def le_bytes_def
    by (simp add: unat_of_nat d2 d3 m3 q1_def [symmetric])
  also have "\<dots> = n" using e1 e2 e3 by linarith
  finally show ?thesis .
qed

lemma unat_byte_lt: "unat (b :: byte) < 256"
  using unsigned_less [of b, where 'a = nat] by simp

lemma byte_of_nat_unat: "m mod 256 = unat (b :: byte) \<Longrightarrow> (of_nat m :: byte) = b"
proof -
  assume "m mod 256 = unat b"
  then have "unat (of_nat m :: byte) = unat b" by (simp add: unat_of_nat)
  then show ?thesis by (simp add: word_unat_eq_iff)
qed

lemma split256: "a < 256 \<Longrightarrow> (a + 256 * k) mod 256 = (a::nat) \<and> (a + 256 * k) div 256 = k"
  by simp

lemma le_bytes_le_value4: "le_bytes (le_value [a, b, c, d]) = [a, b, c, d]"
proof -
  have a: "unat a < 256" and b: "unat b < 256" and c: "unat c < 256" and d: "unat d < 256"
    by (rule unat_byte_lt)+
  define v where "v = unat a + 256 * unat b + 65536 * unat c + 16777216 * unat d"
  define v1 where "v1 = unat b + 256 * (unat c + 256 * unat d)"
  define v2 where "v2 = unat c + 256 * unat d"
  have v: "v = unat a + 256 * v1" unfolding v_def v1_def by simp
  have v1: "v1 = unat b + 256 * v2" unfolding v1_def v2_def by simp
  have m0: "v mod 256 = unat a" and d0: "v div 256 = v1"
    unfolding v using split256 [OF a] by simp_all
  have m1: "v1 mod 256 = unat b" and d1: "v1 div 256 = v2"
    unfolding v1 using split256 [OF b] by simp_all
  have m2: "v2 mod 256 = unat c" and d2: "v2 div 256 = unat d"
    unfolding v2_def using split256 [OF c] by simp_all
  have m3: "unat d mod 256 = unat d" using d by simp
  have q2: "v div 65536 = v2" using d0 d1 by (simp add: div_mult2_eq [symmetric])
  have q3: "v div 16777216 = unat d" using d0 d1 d2 by (simp add: div_mult2_eq [symmetric])
  have "le_bytes v = [a, b, c, d]"
    unfolding le_bytes_def
    by (simp add: byte_of_nat_unat m0 d0 m1 q2 m2 q3 m3)
  then show ?thesis by (simp add: le_value_def v_def)
qed

lemma le_value_lt: "le_value bs < 4294967296"
proof -
  have "unat (bs ! 0) < 256" "unat (bs ! 1) < 256" "unat (bs ! 2) < 256" "unat (bs ! 3) < 256"
    by (rule unat_byte_lt)+
  then show ?thesis unfolding le_value_def by linarith
qed

lemma length4_cases: "length bs = 4 \<Longrightarrow> \<exists>a b c d. bs = [a, b, c, d]"
  by (cases bs; simp; cases "tl bs"; simp; cases "tl (tl bs)"; simp; cases "tl (tl (tl bs))"; simp)

lemma length_pack_I: "length (pack_I bo n) = 4"
  by (cases bo) (simp_all add: pack_I_def length_le_bytes)

lemma unpack_pack_I: "n < 4294967296 \<Longrightarrow> unpack_I bo (pack_I bo n) = n"
  by (cases bo) (simp_all add: pack_I_def unpack_I_def le_value_le_bytes)

lemma pack_unpack_I: "length bs = 4 \<Longrightarrow> pack_I bo (unpack_I bo bs) = bs"
proof -
  assume "length bs = 4"
  then obtain a b c d where bs: "bs = [a, b, c, d]" using length4_cases by blast
  show ?thesis
  proof (cases bo)
    case LittleEndian
    then show ?thesis by (simp add: pack_I_def unpack_I_def bs le_bytes_le_value4)
  next
    case BigEndian
    have "le_bytes (le_value [d, c, b, a]) = [d, c, b, a]" by (rule le_bytes_le_value4)
    then show ?thesis using BigEndian by (simp add: pack_I_def unpack_I_def bs)
  qed
qed

lemma unpack_I_lt: "unpack_I bo bs < 4294967296"
  by (simp add: unpack_I_def le_value_lt)

lemma length_tobytes: "length (tobytes bo offs) = 4 * length offs"
  by (induction offs) (simp_all add: tobytes_def length_pack_I)

lemma chunks4_append4: "length c = 4 \<Longrightarrow> chunks4 (c @ bs) = c # chunks4 bs"
proof -
  assume "length c = 4"
  then obtain a b c' d where "c = [a, b, c', d]" using length4_cases by blast
  then show ?thesis by simp
qed

lemma chunks4_tobytes: "chunks4 (tobytes bo offs) = map (pack_I bo) offs"
proof (induction offs)
  case Nil
  then show ?case by (simp add: tobytes_def)
next
  case (Cons a offs)
  have "tobytes bo (a # offs) = pack_I bo a @ tobytes bo offs" by (simp add: tobytes_def)
  then show ?case using Cons by (simp add: chunks4_append4 length_pack_I)
qed

lemma frombytes_tobytes:
  "list_all (\<lambda>i. i < 4294967296) offs \<Longrightarrow> frombytes bo (tobytes bo offs) = Inr offs"
proof -
  assume a: "list_all (\<lambda>i. i < 4294967296) offs"
  have "map (unpack_I bo) (map (pack_I bo) offs) = offs"
    using a by (induction offs) (simp_all add: unpack_pack_I)
  then show ?thesis
    by (simp add: frombytes_def length_tobytes chunks4_tobytes)
qed

lemma chunks4_concat_len:
  "length bs = 4 * n \<Longrightarrow> concat (chunks4 bs) = bs \<and> (\<forall>c \<in> set (chunks4 bs). length c = 4)
     \<and> length (chunks4 bs) = n"
proof (induction n arbitrary: bs)
  case 0
  then show ?case by simp
next
  case (Suc n)
  from Suc.prems have "length bs = Suc (Suc (Suc (Suc (4 * n))))" by simp
  then obtain a b c d bs' where bs: "bs = a # b # c # d # bs'" and l: "length bs' = 4 * n"
    by (auto simp: length_Suc_conv)
  from Suc.IH [OF l] show ?case by (simp add: bs)
qed

lemma chunks4_concat:
  assumes "length bs mod 4 = 0"
  shows "concat (chunks4 bs) = bs \<and> (\<forall>c \<in> set (chunks4 bs). length c = 4)
     \<and> 4 * length (chunks4 bs) = length bs"
proof -
  from assms have "length bs = 4 * (length bs div 4)" by presburger
  from chunks4_concat_len [OF this] this show ?thesis by simp
qed

lemma tobytes_frombytes:
  assumes "frombytes bo bs = Inr offs"
  shows "tobytes bo offs = bs \<and> 4 * length offs = length bs
         \<and> list_all (\<lambda>i. i < 4294967296) offs"
proof -
  from assms have m: "length bs mod 4 = 0" and offs: "offs = map (unpack_I bo) (chunks4 bs)"
    by (auto simp: frombytes_def split: if_splits)
  from chunks4_concat [OF m] have c: "concat (chunks4 bs) = bs"
    and l: "\<forall>c \<in> set (chunks4 bs). length c = 4" and n: "4 * length (chunks4 bs) = length bs"
    by simp_all
  have "map (pack_I bo) (map (unpack_I bo) (chunks4 bs)) = chunks4 bs"
    using l by (induction "chunks4 bs" arbitrary: bs) (simp_all add: pack_unpack_I map_idI)
  then have "tobytes bo offs = bs" using c by (simp add: tobytes_def offs)
  moreover have "4 * length offs = length bs" using n by (simp add: offs)
  moreover have "list_all (\<lambda>i. i < 4294967296) offs"
    by (simp add: offs list_all_iff unpack_I_lt)
  ultimately show ?thesis by simp
qed

lemma length_hit_bytes: "length (hit_bytes bo h) = 8 + 4 * length (offsets h)"
  by (simp add: hit_bytes_def length_pack_I length_tobytes)

lemma length_hits_bytes: "length (hits_bytes bo hs) = (\<Sum>h \<leftarrow> hs. 8 + 4 * length (offsets h))"
  by (induction hs) (simp_all add: hits_bytes_def length_hit_bytes)

lemma hits_bytes_Cons: "hits_bytes bo (h # hs) = hit_bytes bo h @ hits_bytes bo hs"
  by (simp add: hits_bytes_def)

lemma hits_bytes_append: "hits_bytes bo (hs @ hs') = hits_bytes bo hs @ hits_bytes bo hs'"
  by (simp add: hits_bytes_def)

lemma pack_hits_sound:
  "pack_hits bo hs acc = Inr bytes \<Longrightarrow>
   bytes = acc @ hits_bytes bo hs
   \<and> (\<forall>h \<in> set hs. doc_id h < 4294967296 \<and> length (offsets h) < 4294967296)"
proof (induction hs arbitrary: acc)
  case Nil
  then show ?case by (simp add: hits_bytes_def)
next
  case (Cons h hs)
  from Cons.prems have b: "doc_id h < 4294967296 \<and> length (offsets h) < 4294967296"
    and r: "pack_hits bo hs ((acc @ pack_I bo (doc_id h) @ pack_I bo (length (offsets h)))
              @ tobytes bo (offsets h)) = Inr bytes"
    by (auto simp: struct_pack_II_def split: if_splits)
  from Cons.IH [OF r] b show ?case
    by (simp add: hits_bytes_Cons hit_bytes_def)
qed

lemma pack_hits_complete:
  "\<forall>h \<in> set hs. doc_id h < 4294967296 \<and> length (offsets h) < 4294967296 \<Longrightarrow>
   pack_hits bo hs acc = Inr (acc @ hits_bytes bo hs)"
proof (induction hs arbitrary: acc)
  case Nil
  then show ?case by (simp add: hits_bytes_def)
next
  case (Cons h hs)
  then show ?case
    by (simp add: struct_pack_II_def hits_bytes_Cons hit_bytes_def)
qed

lemma decode_hits_sound:
  "decode_hits bo bytes pos acc = Inr hits \<Longrightarrow>
   pos \<le> length bytes \<and> (\<exists>new. hits = acc @ new \<and> drop pos bytes = hits_bytes bo new
      \<and> list_all fits32 new)"
proof (induction bo bytes pos acc rule: decode_hits.induct)
  case (1 bo bytes pos acc)
  show ?case
  proof (cases "pos < length bytes")
    case False
    with "1.prems" have "pos = length bytes" and "hits = acc"
      by (auto simp: decode_hits.simps [of bo bytes pos acc] split: if_splits)
    then show ?thesis by (simp add: hits_bytes_def)
  next
    case True
    let ?s1 = "slice bytes pos (pos + 8)"
    from True "1.prems" obtain d hc offs where
      u: "struct_unpack_II bo ?s1 = Inr (d, hc)"
      and f: "frombytes bo (slice bytes (pos + 8) (pos + 8 + 4 * hc)) = Inr offs"
      and r: "decode_hits bo bytes (pos + 8 + 4 * hc) (acc @ [Hit d offs]) = Inr hits"
      by (auto simp: decode_hits.simps [of bo bytes pos acc] split: sum.splits)
    let ?s2 = "slice bytes (pos + 8) (pos + 8 + 4 * hc)"
    from "1.IH" [OF True u refl f r] obtain new where
      le: "pos + 8 + 4 * hc \<le> length bytes"
      and hits: "hits = (acc @ [Hit d offs]) @ new"
      and dr: "drop (pos + 8 + 4 * hc) bytes = hits_bytes bo new"
      and fit: "list_all fits32 new"
      by blast
    from u have l1: "length ?s1 = 8" and d: "d = unpack_I bo (take 4 ?s1)"
      and hc: "hc = unpack_I bo (drop 4 ?s1)"
      by (auto simp: struct_unpack_II_def split: if_splits)
    from tobytes_frombytes [OF f] have tb: "tobytes bo offs = ?s2"
      and lo: "4 * length offs = length ?s2"
      and fo: "list_all (\<lambda>i. i < 4294967296) offs"
      by simp_all
    have l2: "length ?s2 = 4 * hc" using le by (simp add: slice_def)
    with lo have len: "length offs = hc" by simp
    have p1: "pack_I bo d = take 4 ?s1" unfolding d using l1 by (simp add: pack_unpack_I)
    have p2: "pack_I bo (length offs) = drop 4 ?s1"
      unfolding len hc using l1 by (simp add: pack_unpack_I)
    have hb: "hit_bytes bo (Hit d offs) = ?s1 @ ?s2"
      by (simp add: hit_bytes_def p1 p2 tb)
    have s12: "?s1 @ ?s2 = take (8 + 4 * hc) (drop pos bytes)"
      by (simp add: slice_def take_add add.commute)
    have dd: "drop (8 + 4 * hc) (drop pos bytes) = hits_bytes bo new"
      using dr by (simp add: add_ac)
    have "drop pos bytes = take (8 + 4 * hc) (drop pos bytes) @ drop (8 + 4 * hc) (drop pos bytes)"
      by (rule append_take_drop_id [symmetric])
    also have "\<dots> = hit_bytes bo (Hit d offs) @ hits_bytes bo new"
      by (simp only: dd hb s12)
    finally have dp: "drop pos bytes = hits_bytes bo (Hit d offs # new)"
      by (simp only: hits_bytes_Cons)
    have "d < 4294967296" unfolding d by (rule unpack_I_lt)
    moreover have "length offs < 4294967296" unfolding len hc by (rule unpack_I_lt)
    ultimately have f32: "fits32 (Hit d offs)" using fo by (simp add: fits32_def)
    have "hits = acc @ (Hit d offs # new)" using hits by simp
    moreover have "list_all fits32 (Hit d offs # new)" using f32 fit by simp
    ultimately show ?thesis using dp True by (intro conjI exI [of _ "Hit d offs # new"]) simp_all
  qed
qed

lemma decode_hits_complete:
  "list_all fits32 hs \<Longrightarrow>
   decode_hits bo (pre @ hits_bytes bo hs) (length pre) acc = Inr (acc @ hs)"
proof (induction hs arbitrary: pre acc)
  case Nil
  then show ?case by (simp add: hits_bytes_def decode_hits.simps [of _ _ "length pre"])
next
  case (Cons h hs)
  let ?bytes = "pre @ hits_bytes bo (h # hs)"
  let ?hd = "pack_I bo (doc_id h) @ pack_I bo (length (offsets h))"
  from Cons.prems have fit: "fits32 h" and rest: "list_all fits32 hs" by simp_all
  have bytes: "?bytes = pre @ ?hd @ tobytes bo (offsets h) @ hits_bytes bo hs"
    by (simp add: hits_bytes_Cons hit_bytes_def)
  have lt: "length pre < length ?bytes" by (simp add: bytes length_pack_I)
  have s1: "slice ?bytes (length pre) (length pre + 8) = ?hd"
    by (simp add: bytes slice_def length_pack_I)
  have u: "struct_unpack_II bo ?hd = Inr (doc_id h, length (offsets h))"
    using fit by (simp add: struct_unpack_II_def length_pack_I unpack_pack_I fits32_def)
  have s2: "slice ?bytes (length pre + 8) (length pre + 8 + 4 * length (offsets h))
            = tobytes bo (offsets h)"
    by (simp add: bytes slice_def length_pack_I length_tobytes)
  have f: "frombytes bo (tobytes bo (offsets h)) = Inr (offsets h)"
    using fit by (simp add: frombytes_tobytes fits32_def)
  have pre': "?bytes = (pre @ hit_bytes bo h) @ hits_bytes bo hs"
    by (simp add: hits_bytes_Cons)
  have len: "length pre + 8 + 4 * length (offsets h) = length (pre @ hit_bytes bo h)"
    by (simp add: length_hit_bytes)
  have "decode_hits bo ?bytes (length pre) acc
        = decode_hits bo ?bytes (length pre + 8 + 4 * length (offsets h)) (acc @ [h])"
    by (subst decode_hits.simps [of bo ?bytes "length pre" acc])
      (simp only: lt if_True s1 u sum.case prod.case s2 f Hit.collapse)
  also have "\<dots> = Inr ((acc @ [h]) @ hs)"
    unfolding len pre' by (rule Cons.IH [OF rest])
  finally show ?case by simp
qed

subsection \<open>Decoding a postings list\<close>

lemma lookup_eval:
  "terms ix word = Some (start, len) \<Longrightarrow>
   seek_read (index_file ix) start len = Inr (hits_bytes bo hs) \<Longrightarrow> list_all fits32 hs \<Longrightarrow>
   lookup bo ix word = Inr hs"
  using decode_hits_complete [of hs bo "[]" "[]"] by (simp add: lookup_def)

lemma lookup_sound:
  assumes "terms ix word = Some (start, len)"
    and "lookup bo ix word = Inr hits"
  shows "seek_read (index_file ix) start len = Inr (hits_bytes bo hits)"
proof -
  from assms obtain bytes where r: "seek_read (index_file ix) start len = Inr bytes"
    and d: "decode_hits bo bytes 0 [] = Inr hits"
    by (auto simp: lookup_def split: sum.splits)
  from decode_hits_sound [OF d] have "bytes = hits_bytes bo hits" by simp
  with r show ?thesis by simp
qed

lemma hits_bytes_inj:
  assumes "hits_bytes bo hs = hits_bytes bo hs'" and "list_all fits32 hs"
  shows "list_all fits32 hs' \<Longrightarrow> hs = hs'"
proof -
  assume "list_all fits32 hs'"
  from decode_hits_complete [OF assms(2), of bo "[]" "[]"]
    decode_hits_complete [OF this, of bo "[]" "[]"] assms(1)
  show ?thesis by simp
qed

text \<open>Claim C5. \<open>lookup\<close> reads \<open>[byte_offset, byte_offset + byte_length)\<close> and decodes
  record after record. The directory entry below is \<open>(0, 24)\<close> for two records of 12
  bytes. With the whole file \<open>lookup\<close> returns both postings. A file cut inside the second
  record raises: \<open>struct.error\<close> when the header is incomplete, \<open>AssertionError\<close> when the
  offsets are missing, \<open>ValueError\<close> when an offset is cut. But a file cut after the first
  record gives \<open>read\<close> the 12 bytes there are, the cursor stops at 12 and not at the
  declared 24, the \<open>assert\<close> compares the cursor with the bytes read and passes, and one
  posting of two is returned without an error.\<close>

theorem lookup_truncated_blob:
  "lookup LittleEndian
     (Index [Document ''d0.txt'' 1, Document ''d1.txt'' 1] [''w'' \<mapsto> (0, 24)]
        [0, 0, 0, 0, 1, 0, 0, 0, 0, 0, 0, 0,  1, 0, 0, 0, 1, 0, 0, 0, 0, 0, 0, 0]) ''w''
     = Inr [Hit 0 [0], Hit 1 [0]]
   \<and> lookup LittleEndian
     (Index [Document ''d0.txt'' 1, Document ''d1.txt'' 1] [''w'' \<mapsto> (0, 24)]
        [0, 0, 0, 0, 1, 0, 0, 0, 0, 0, 0, 0,  1, 0, 0, 0, 1, 0, 0, 0, 0, 0]) ''w''
     = Inl ValueError
   \<and> lookup LittleEndian
     (Index [Document ''d0.txt'' 1, Document ''d1.txt'' 1] [''w'' \<mapsto> (0, 24)]
        [0, 0, 0, 0, 1, 0, 0, 0, 0, 0, 0, 0,  1, 0, 0, 0, 1, 0, 0, 0]) ''w''
     = Inl AssertionError
   \<and> lookup LittleEndian
     (Index [Document ''d0.txt'' 1, Document ''d1.txt'' 1] [''w'' \<mapsto> (0, 24)]
        [0, 0, 0, 0, 1, 0, 0, 0, 0, 0, 0, 0,  1, 0, 0, 0]) ''w''
     = Inl StructError
   \<and> lookup LittleEndian
     (Index [Document ''d0.txt'' 1, Document ''d1.txt'' 1] [''w'' \<mapsto> (0, 24)]
        [0, 0, 0, 0, 1, 0, 0, 0, 0, 0, 0, 0]) ''w''
     = Inr [Hit 0 [0]]"
  by (simp add: lookup_def seek_read_def decode_hits.simps slice_def struct_unpack_II_def
      unpack_I_def le_value_def frombytes_def)

subsection \<open>The index in memory\<close>

lemma set_first_seen: "set (first_seen xs) = set xs"
  by (induction xs) auto

lemma distinct_first_seen: "distinct (first_seen xs)"
  by (induction xs) (auto simp: set_first_seen)

lemma first_seen_distinct: "distinct xs \<Longrightarrow> first_seen xs = xs"
proof (induction xs)
  case Nil
  then show ?case by simp
next
  case (Cons a xs)
  then have "filter (\<lambda>y. y \<noteq> a) xs = xs" by (auto intro: filter_True)
  with Cons show ?case by simp
qed

lemma fold_add_key: "fold add_key ws ks = ks @ [x \<leftarrow> first_seen ws. x \<notin> set ks]"
proof (induction ws arbitrary: ks)
  case Nil
  then show ?case by simp
next
  case (Cons w ws)
  show ?case
  proof (cases "w \<in> set ks")
    case True
    have "[x \<leftarrow> first_seen ws. x \<noteq> w \<and> x \<notin> set ks] = [x \<leftarrow> first_seen ws. x \<notin> set ks]"
      using True by (intro filter_cong) auto
    then show ?thesis using True Cons [of ks] by (simp add: add_key_def)
  next
    case False
    have "[x \<leftarrow> first_seen ws. x \<noteq> w \<and> x \<notin> set ks] = [x \<leftarrow> first_seen ws. x \<notin> set (ks @ [w])]"
      by (intro filter_cong) auto
    then show ?thesis using False Cons [of "ks @ [w]"] by (simp add: add_key_def)
  qed
qed

lemma first_seen_append:
  "first_seen (xs @ ys) = first_seen xs @ [y \<leftarrow> first_seen ys. y \<notin> set xs]"
proof (induction xs)
  case Nil
  then show ?case by simp
next
  case (Cons a xs)
  have "[y \<leftarrow> first_seen ys. y \<notin> set xs \<and> y \<noteq> a] = [y \<leftarrow> first_seen ys. y \<noteq> a \<and> y \<notin> set xs]"
    by (intro filter_cong) auto
  with Cons show ?case by simp
qed

lemma dd_apply_keys_add: "map fst (dd_apply f dflt k d) = add_key k (map fst d)"
  by (simp add: dd_apply_keys add_key_def)

lemma alist_eqI:
  "distinct (map fst d) \<Longrightarrow> map (\<lambda>k. (k, dd_get dflt d k)) (map fst d) = d"
proof (induction d)
  case Nil
  then show ?case by simp
next
  case (Cons a d)
  obtain k v where a: "a = (k, v)" by (cases a)
  from Cons.prems have nk: "k \<notin> fst ` set d" and dd: "distinct (map fst d)" by (simp_all add: a)
  have "map (\<lambda>k'. (k', dd_get dflt ((k, v) # d) k')) (map fst d)
        = map (\<lambda>k'. (k', dd_get dflt d k')) (map fst d)"
    using nk by (intro map_cong) (auto simp: dd_get_def)
  with Cons.IH [OF dd] show ?case by (simp add: a dd_get_def)
qed

lemma upt_0_Suc: "[0..<Suc n] = 0 # map Suc [0..<n]"
  by (simp only: map_Suc_upt upt_conv_Cons [OF zero_less_Suc])

lemma positions_from_shift:
  "positions_from i w ws = map (\<lambda>j. i + j) [j \<leftarrow> [0..<length ws]. ws ! j = w]"
proof (induction ws arbitrary: i)
  case Nil
  then show ?case by simp
next
  case (Cons x ws)
  have upt: "[0..<length (x # ws)] = 0 # map Suc [0..<length ws]"
    using upt_0_Suc [of "length ws"] by simp
  show ?case
    unfolding upt by (simp add: Cons [of "Suc i"] filter_map comp_def)
qed

lemma positions_from_0: "positions_from 0 w ws = positions w ws"
  by (simp add: positions_from_shift positions_def)

lemma positions_from_bound: "j \<in> set (positions_from i w ws) \<Longrightarrow> j < i + length ws"
  by (auto simp: positions_from_shift)

lemma positions_from_empty: "positions_from i w ws = [] \<longleftrightarrow> w \<notin> set ws"
  by (induction ws arbitrary: i) auto

lemma length_positions_from: "length (positions_from i w ws) \<le> length ws"
  using length_filter_le [of "\<lambda>j. ws ! j = w" "[0..<length ws]"]
  by (simp add: positions_from_shift)

lemma postings_from_shift:
  "postings_from n w dir =
     [Hit (n + d) (positions w (words (snd (dir ! d)))).
        d \<leftarrow> [0..<length dir], w \<in> set (words (snd (dir ! d)))]"
proof (induction dir arbitrary: n)
  case Nil
  then show ?case by simp
next
  case (Cons a dir)
  obtain path body where a: "a = (path, body)" by (cases a)
  have upt: "[0..<length (a # dir)] = 0 # map Suc [0..<length dir]"
    using upt_0_Suc [of "length dir"] by simp
  show ?case
    unfolding upt by (simp add: a Cons [of "Suc n"] positions_from_0 comp_def cong: if_cong)
qed

lemma postings_from_0: "postings_from 0 w dir = postings dir w"
  by (simp add: postings_from_shift postings_def cong: if_cong)

lemma distinct_fold_add_key: "distinct ks \<Longrightarrow> distinct (fold add_key ws ks)"
  by (auto simp: fold_add_key distinct_first_seen)

lemma set_fold_add_key: "set (fold add_key ws ks) = set ks \<union> set ws"
  by (auto simp: fold_add_key set_first_seen)

lemma fold_add_key_first_seen: "fold add_key (first_seen ws) ks = fold add_key ws ks"
  by (simp add: fold_add_key first_seen_distinct distinct_first_seen)

lemma fold_add_key_Nil: "fold add_key ws [] = first_seen ws"
  by (simp add: fold_add_key)

lemma map_of_graph: "map_of (map (\<lambda>k. (k, f k)) ks) k = (if k \<in> set ks then Some (f k) else None)"
  by (induction ks) auto

lemma dd_get_graph: "dd_get dflt (map (\<lambda>k. (k, f k)) ks) k = (if k \<in> set ks then f k else dflt)"
  by (simp add: dd_get_def map_of_graph)

lemma index_words_keys:
  "index_words d i ws di = Inr di' \<Longrightarrow> map fst di' = fold add_key ws (map fst di)"
proof (induction ws arbitrary: i di)
  case Nil
  then show ?case by simp
next
  case (Cons w ws)
  then show ?case by (auto simp: dd_apply_keys_add split: if_splits)
qed

lemma index_words_get:
  "index_words d i ws di = Inr di' \<Longrightarrow>
   dd_get (Hit d []) di' w =
     Hit (doc_id (dd_get (Hit d []) di w))
         (offsets (dd_get (Hit d []) di w) @ positions_from i w ws)"
proof (induction ws arbitrary: i di)
  case Nil
  then show ?case by simp
next
  case (Cons x ws)
  from Cons.prems have
    r: "index_words d (Suc i) ws
          (dd_apply (\<lambda>h. Hit (doc_id h) (offsets h @ [i])) (Hit d []) x di) = Inr di'"
    by (simp split: if_splits)
  from Cons.IH [OF r] show ?case by (simp add: dd_apply_get)
qed

lemma index_words_bound:
  "index_words d i ws di = Inr di' \<Longrightarrow> ws \<noteq> [] \<Longrightarrow> i + length ws \<le> 4294967296"
proof (induction ws arbitrary: i di)
  case Nil
  then show ?case by simp
next
  case (Cons x ws)
  from Cons.prems have i: "i < 4294967296" and
    r: "index_words d (Suc i) ws
          (dd_apply (\<lambda>h. Hit (doc_id h) (offsets h @ [i])) (Hit d []) x di) = Inr di'"
    by (simp_all split: if_splits)
  show ?case
  proof (cases "ws = []")
    case True
    with i show ?thesis by simp
  next
    case False
    from Cons.IH [OF r False] show ?thesis by simp
  qed
qed

lemma index_words_total:
  "i + length ws \<le> 4294967296 \<Longrightarrow> \<exists>di'. index_words d i ws di = Inr di'"
  by (induction ws arbitrary: i di) auto

lemma index_words_result:
  assumes "index_words d 0 ws [] = Inr di"
  shows "di = map (\<lambda>w. (w, Hit d (positions_from 0 w ws))) (first_seen ws)"
    and "length ws \<le> 4294967296"
proof -
  have k: "map fst di = first_seen ws"
    using index_words_keys [OF assms] by (simp add: fold_add_key_Nil)
  have g: "dd_get (Hit d []) di w = Hit d (positions_from 0 w ws)" for w
    using index_words_get [OF assms, of w] by (simp add: dd_get_def)
  have "distinct (map fst di)" by (simp add: k distinct_first_seen)
  from alist_eqI [OF this, of "Hit d []"] show "di = map (\<lambda>w. (w, Hit d (positions_from 0 w ws))) (first_seen ws)"
    by (simp add: k g)
  show "length ws \<le> 4294967296"
    using index_words_bound [OF assms] by (cases "ws = []") simp_all
qed

lemma merge_keys:
  "map fst (merge_doc_index di index) = fold add_key (map fst di) (map fst index)"
  unfolding merge_doc_index_def
  by (induction di arbitrary: index) (auto simp: dd_apply_keys_add)

lemma merge_get:
  "distinct (map fst di) \<Longrightarrow>
   dd_get [] (merge_doc_index di index) w
     = dd_get [] index w @ (case map_of di w of None \<Rightarrow> [] | Some h \<Rightarrow> [h])"
  unfolding merge_doc_index_def
proof (induction di arbitrary: index)
  case Nil
  then show ?case by simp
next
  case (Cons a di)
  obtain k h where a: "a = (k, h)" by (cases a)
  from Cons.prems have nk: "map_of di k = None" and dd: "distinct (map fst di)"
    by (simp_all add: a map_of_eq_None_iff)
  show ?case
    using Cons.IH [OF dd, of "dd_apply (\<lambda>hits. hits @ [h]) [] k index"] nk
    by (simp add: a dd_apply_get)
qed

lemma index_docs_result:
  "index_docs dir docs0 idx0 = Inr (docs1, idx1) \<Longrightarrow>
   docs1 = docs0 @ map (\<lambda>(p, t). Document p (int (length (words t)))) dir
   \<and> map fst idx1 = fold add_key (concat (map (\<lambda>(p, t). words t) dir)) (map fst idx0)
   \<and> (\<forall>w. dd_get [] idx1 w = dd_get [] idx0 w @ postings_from (length docs0) w dir)
   \<and> (\<forall>(p, t) \<in> set dir. length (words t) \<le> 4294967296)"
proof (induction dir arbitrary: docs0 idx0)
  case Nil
  then show ?case by simp
next
  case (Cons a dir)
  obtain p t where a: "a = (p, t)" by (cases a)
  let ?d = "length docs0"
  let ?doc = "Document p (int (length (words t)))"
  from Cons.prems obtain di where
    di: "index_words ?d 0 (words t) [] = Inr di"
    and r: "index_docs dir (docs0 @ [?doc]) (merge_doc_index di idx0) = Inr (docs1, idx1)"
    by (auto simp: a Let_def split: sum.splits)
  note res = index_words_result [OF di]
  have dk: "map fst di = first_seen (words t)" by (simp add: res(1) comp_def)
  have mk: "map fst (merge_doc_index di idx0) = fold add_key (words t) (map fst idx0)"
    by (simp add: merge_keys dk fold_add_key_first_seen)
  have mo: "map_of di w = (if w \<in> set (words t) then Some (Hit ?d (positions_from 0 w (words t))) else None)" for w
    by (subst res(1)) (simp add: map_of_graph set_first_seen)
  have mg: "dd_get [] (merge_doc_index di idx0) w
     = dd_get [] idx0 w @ (if w \<in> set (words t) then [Hit ?d (positions_from 0 w (words t))] else [])" for w
    by (simp add: merge_get dk distinct_first_seen mo)
  from Cons.IH [OF r] have
    1: "docs1 = (docs0 @ [?doc]) @ map (\<lambda>(p, t). Document p (int (length (words t)))) dir"
    and 2: "map fst idx1 = fold add_key (concat (map (\<lambda>(p, t). words t) dir))
              (map fst (merge_doc_index di idx0))"
    and 3: "\<And>w. dd_get [] idx1 w = dd_get [] (merge_doc_index di idx0) w
              @ postings_from (length (docs0 @ [?doc])) w dir"
    and 4: "\<forall>(p, t) \<in> set dir. length (words t) \<le> 4294967296"
    by simp_all
  have "docs1 = docs0 @ map (\<lambda>(p, t). Document p (int (length (words t)))) (a # dir)"
    using 1 by (simp add: a)
  moreover have "map fst idx1 = fold add_key (concat (map (\<lambda>(p, t). words t) (a # dir))) (map fst idx0)"
    using 2 by (simp add: mk a)
  moreover have "\<forall>w. dd_get [] idx1 w = dd_get [] idx0 w @ postings_from ?d w (a # dir)"
    using 3 by (simp add: mg a)
  moreover have "\<forall>(p, t) \<in> set (a # dir). length (words t) \<le> 4294967296"
    using 4 res(2) by (simp add: a)
  ultimately show ?case by blast
qed

lemma index_docs_final:
  assumes "index_docs dir [] [] = Inr (docs0, idx0)"
  shows "docs0 = map (\<lambda>(p, t). Document p (int (length (words t)))) dir"
    and "idx0 = map (\<lambda>w. (w, postings dir w)) (first_seen (concat (map (\<lambda>(p, t). words t) dir)))"
    and "\<forall>(p, t) \<in> set dir. length (words t) \<le> 4294967296"
proof -
  from index_docs_result [OF assms] have
    1: "docs0 = map (\<lambda>(p, t). Document p (int (length (words t)))) dir"
    and 2: "map fst idx0 = first_seen (concat (map (\<lambda>(p, t). words t) dir))"
    and 3: "\<And>w. dd_get [] idx0 w = postings dir w"
    and 4: "\<forall>(p, t) \<in> set dir. length (words t) \<le> 4294967296"
    by (simp_all add: fold_add_key_Nil dd_get_def postings_from_0)
  show "docs0 = map (\<lambda>(p, t). Document p (int (length (words t)))) dir" by (rule 1)
  show "\<forall>(p, t) \<in> set dir. length (words t) \<le> 4294967296" by (rule 4)
  have "distinct (map fst idx0)" by (simp add: 2 distinct_first_seen)
  from alist_eqI [OF this, of "[]"]
  show "idx0 = map (\<lambda>w. (w, postings dir w)) (first_seen (concat (map (\<lambda>(p, t). words t) dir)))"
    by (simp add: 2 3)
qed

subsection \<open>Writing the index\<close>

lemma dict_set_new: "k \<notin> fst ` set d \<Longrightarrow> dict_set k v d = d @ [(k, v)]"
  unfolding dict_set_def by (induction d) auto

lemma write_index_result:
  "write_index bo idx f start trms = Inr (f', trms') \<Longrightarrow> distinct (map fst idx) \<Longrightarrow>
   fst ` set idx \<inter> fst ` set trms = {} \<Longrightarrow>
   f' = f @ blob_of bo idx \<and> trms' = trms @ rows_from bo start idx
   \<and> (\<forall>(w, hits) \<in> set idx. \<forall>h \<in> set hits.
         doc_id h < 4294967296 \<and> length (offsets h) < 4294967296)"
proof (induction idx arbitrary: f start trms)
  case Nil
  then show ?case by (simp add: blob_of_def)
next
  case (Cons a idx)
  obtain w hits where a: "a = (w, hits)" by (cases a)
  from Cons.prems(1) obtain bytes where
    p: "pack_hits bo hits [] = Inr bytes"
    and r: "write_index bo idx (f @ bytes) (start + int (length bytes))
              (dict_set w (start, int (length bytes)) trms) = Inr (f', trms')"
    by (auto simp: a split: sum.splits)
  from pack_hits_sound [OF p] have bytes: "bytes = hits_bytes bo hits"
    and bnd: "\<forall>h \<in> set hits. doc_id h < 4294967296 \<and> length (offsets h) < 4294967296"
    by simp_all
  from Cons.prems(3) have nw: "w \<notin> fst ` set trms" by (auto simp: a)
  have ds: "dict_set w (start, int (length bytes)) trms = trms @ [(w, start, int (length bytes))]"
    using nw by (rule dict_set_new)
  from Cons.prems(2) have dd: "distinct (map fst idx)" and wn: "w \<notin> fst ` set idx"
    by (simp_all add: a)
  have dj: "fst ` set idx \<inter> fst ` set (trms @ [(w, start, int (length bytes))]) = {}"
    using Cons.prems(3) wn by (auto simp: a)
  from Cons.IH [OF r [unfolded ds] dd dj] bnd show ?case
    by (simp add: a bytes blob_of_def)
qed

lemma write_index_total:
  "\<forall>(w, hits) \<in> set idx. \<forall>h \<in> set hits.
      doc_id h < 4294967296 \<and> length (offsets h) < 4294967296 \<Longrightarrow>
   \<exists>r. write_index bo idx f start trms = Inr r"
proof (induction idx arbitrary: f start trms)
  case Nil
  then show ?case by simp
next
  case (Cons a idx)
  obtain w hits where a: "a = (w, hits)" by (cases a)
  from Cons.prems have "\<forall>h \<in> set hits. doc_id h < 4294967296 \<and> length (offsets h) < 4294967296"
    by (simp add: a)
  from pack_hits_complete [OF this, of bo "[]"] have p: "pack_hits bo hits [] = Inr (hits_bytes bo hits)"
    by simp
  from Cons.prems have "\<forall>(w, hits) \<in> set idx. \<forall>h \<in> set hits.
      doc_id h < 4294967296 \<and> length (offsets h) < 4294967296" by simp
  from Cons.IH [OF this] show ?case by (simp add: a p)
qed

lemma distinct_index_of: "distinct (map fst (index_of dir))"
  by (simp add: index_of_def comp_def distinct_first_seen)

lemma make_index_result:
  assumes "make_index bo dir = Inr files"
  shows "documents_csv files = map (\<lambda>(p, t). (p, int (length (words t)))) dir"
    and "index_dat files = blob_of bo (index_of dir)"
    and "terms_csv files = rows_from bo 0 (index_of dir)"
    and "\<forall>(w, hits) \<in> set (index_of dir). \<forall>h \<in> set hits.
           doc_id h < 4294967296 \<and> length (offsets h) < 4294967296"
    and "\<forall>(p, t) \<in> set dir. length (words t) \<le> 4294967296"
proof -
  from assms obtain docs idx f trms where
    b: "index_docs dir [] [] = Inr (docs, idx)"
    and w: "write_index bo idx [] 0 [] = Inr (f, trms)"
    and files: "files = Files (map (\<lambda>doc. (filename doc, size_doc doc)) docs) f trms"
    by (auto simp: make_index_def split: sum.splits)
  note fin = index_docs_final [OF b]
  have idx: "idx = index_of dir" by (simp add: fin(2) index_of_def)
  from write_index_result [OF w] distinct_index_of [of dir] have
    1: "f = blob_of bo (index_of dir)" and 2: "trms = rows_from bo 0 (index_of dir)"
    and 3: "\<forall>(w, hits) \<in> set (index_of dir). \<forall>h \<in> set hits.
           doc_id h < 4294967296 \<and> length (offsets h) < 4294967296"
    by (simp_all add: idx)
  show "documents_csv files = map (\<lambda>(p, t). (p, int (length (words t)))) dir"
    by (simp add: files fin(1) comp_def case_prod_unfold)
  show "index_dat files = blob_of bo (index_of dir)" by (simp add: files 1)
  show "terms_csv files = rows_from bo 0 (index_of dir)" by (simp add: files 2)
  show "\<forall>(w, hits) \<in> set (index_of dir). \<forall>h \<in> set hits.
           doc_id h < 4294967296 \<and> length (offsets h) < 4294967296" by (rule 3)
  show "\<forall>(p, t) \<in> set dir. length (words t) \<le> 4294967296" by (rule fin(3))
qed

lemma index_docs_total:
  "\<forall>(p, t) \<in> set dir. length (words t) \<le> 4294967296 \<Longrightarrow>
   \<exists>r. index_docs dir docs idx = Inr r"
proof (induction dir arbitrary: docs idx)
  case Nil
  then show ?case by simp
next
  case (Cons a dir)
  obtain p t where a: "a = (p, t)" by (cases a)
  from Cons.prems have "0 + length (words t) \<le> 4294967296" by (simp add: a)
  from index_words_total [OF this] obtain di where
    di: "index_words (length docs) 0 (words t) [] = Inr di" by blast
  from Cons.prems have "\<forall>(p, t) \<in> set dir. length (words t) \<le> 4294967296" by simp
  from Cons.IH [OF this] show ?case by (simp add: a di Let_def)
qed

lemma postings_doc_id: "h \<in> set (postings dir w) \<Longrightarrow>
  doc_id h < length dir \<and> w \<in> set (words (snd (dir ! doc_id h)))
  \<and> offsets h = positions w (words (snd (dir ! doc_id h)))"
  by (auto simp: postings_def split: if_splits)

lemma postings_empty: "postings dir w = [] \<longleftrightarrow> w \<notin> set (concat (map (\<lambda>(p, t). words t) dir))"
proof
  assume e: "postings dir w = []"
  show "w \<notin> set (concat (map (\<lambda>(p, t). words t) dir))"
  proof
    assume "w \<in> set (concat (map (\<lambda>(p, t). words t) dir))"
    then obtain p t where pt: "(p, t) \<in> set dir" and w: "w \<in> set (words t)" by auto
    then obtain d where d: "d < length dir" and "dir ! d = (p, t)" by (auto simp: in_set_conv_nth)
    with w have "Hit d (positions w (words (snd (dir ! d)))) \<in> set (postings dir w)"
      by (auto simp: postings_def)
    with e show False by simp
  qed
next
  assume n: "w \<notin> set (concat (map (\<lambda>(p, t). words t) dir))"
  have "\<And>d. d < length dir \<Longrightarrow> w \<notin> set (words (snd (dir ! d)))"
  proof -
    fix d assume d: "d < length dir"
    then have "dir ! d \<in> set dir" by simp
    with n show "w \<notin> set (words (snd (dir ! d)))" by (cases "dir ! d") force
  qed
  then show "postings dir w = []" by (simp add: postings_def)
qed

lemma positions_lt: "i \<in> set (positions w ws) \<Longrightarrow> i < length ws"
  by (simp add: positions_def)

lemma length_positions: "length (positions w ws) \<le> length ws"
  using length_filter_le [of "\<lambda>i. ws ! i = w" "[0..<length ws]"] by (simp add: positions_def)

lemma make_index_total:
  assumes "length dir \<le> 4294967296"
    and "\<forall>(p, t) \<in> set dir. length (words t) < 4294967296"
  shows "\<exists>files. make_index bo dir = Inr files"
proof -
  from assms(2) have "\<forall>(p, t) \<in> set dir. length (words t) \<le> 4294967296" by auto
  from index_docs_total [OF this] obtain docs idx where
    b: "index_docs dir [] [] = Inr (docs, idx)" by fastforce
  have idx: "idx = index_of dir" using index_docs_final(2) [OF b] by (simp add: index_of_def)
  have "\<forall>(w, hits) \<in> set idx. \<forall>h \<in> set hits.
      doc_id h < 4294967296 \<and> length (offsets h) < 4294967296"
  proof (clarify)
    fix w hits h
    assume "(w, hits) \<in> set idx" and h: "h \<in> set hits"
    then have "hits = postings dir w" by (auto simp: idx index_of_def)
    with h postings_doc_id [of h dir w] have d: "doc_id h < length dir"
      and o: "offsets h = positions w (words (snd (dir ! doc_id h)))" by simp_all
    from d have "dir ! doc_id h \<in> set dir" by simp
    with assms(2) have "length (words (snd (dir ! doc_id h))) < 4294967296"
      by (cases "dir ! doc_id h") auto
    with length_positions [of w "words (snd (dir ! doc_id h))"] o
    have "length (offsets h) < 4294967296" by simp
    with d assms(1) show "doc_id h < 4294967296 \<and> length (offsets h) < 4294967296" by simp
  qed
  from write_index_total [OF this] obtain f trms where
    "write_index bo idx [] 0 [] = Inr (f, trms)" by fastforce
  with b show ?thesis by (simp add: make_index_def)
qed

lemma rows_from_keys: "map fst (rows_from bo s idx) = map fst idx"
  by (induction idx arbitrary: s) auto

lemma length_rows_from: "length (rows_from bo s idx) = length idx"
  by (induction idx arbitrary: s) auto

lemma rows_from_lens:
  "map (\<lambda>(w, st, l). l) (rows_from bo s idx) = map (\<lambda>(w, hits). int (length (hits_bytes bo hits))) idx"
  by (induction idx arbitrary: s) auto

lemma rows_from_starts:
  "i < length idx \<Longrightarrow>
   map (\<lambda>(w, st, l). st) (rows_from bo s idx) ! i
     = s + sum_list (take i (map (\<lambda>(w, st, l). l) (rows_from bo s idx)))"
proof (induction idx arbitrary: s i)
  case Nil
  then show ?case by simp
next
  case (Cons a idx)
  obtain w hits where a: "a = (w, hits)" by (cases a)
  show ?case
  proof (cases i)
    case 0
    then show ?thesis by (simp add: a)
  next
    case (Suc j)
    with Cons.prems have "j < length idx" by simp
    from Cons.IH [OF this] show ?thesis by (simp add: a Suc)
  qed
qed

lemma sum_lens_blob:
  "sum_list (map (\<lambda>(w, hits). int (length (hits_bytes bo hits))) idx) = int (length (blob_of bo idx))"
  by (induction idx) (auto simp: blob_of_def)

lemma sum_list_take_le:
  assumes "\<forall>x \<in> set xs. (0::int) \<le> x" and "i < j" and "j \<le> length xs"
  shows "sum_list (take i xs) + xs ! i \<le> sum_list (take j xs)"
proof -
  have i: "i < length xs" using assms(2,3) by simp
  have "take j xs = take (Suc i) (take j xs) @ drop (Suc i) (take j xs)"
    by (rule append_take_drop_id [symmetric])
  also have "take (Suc i) (take j xs) = take (Suc i) xs" using assms(2) by (simp add: min_def)
  finally have "sum_list (take j xs) = sum_list (take (Suc i) xs) + sum_list (drop (Suc i) (take j xs))"
    by (metis sum_list_append)
  moreover have "sum_list (take (Suc i) xs) = sum_list (take i xs) + xs ! i"
    using i by (simp add: take_Suc_conv_app_nth)
  moreover have "0 \<le> sum_list (drop (Suc i) (take j xs))"
  proof (rule sum_list_nonneg)
    fix x assume "x \<in> set (drop (Suc i) (take j xs))"
    then have "x \<in> set xs" by (meson in_set_dropD in_set_takeD)
    with assms(1) show "0 \<le> x" by simp
  qed
  ultimately show ?thesis by simp
qed

subsection \<open>Reading back what was written\<close>

lemma fold_terms:
  "distinct (map fst rows) \<Longrightarrow>
   fold (\<lambda>(word, start, len) t. t(word \<mapsto> (start, len))) rows m w
     = (case map_of rows w of None \<Rightarrow> m w | Some v \<Rightarrow> Some v)"
proof (induction rows arbitrary: m)
  case Nil
  then show ?case by simp
next
  case (Cons a rows)
  obtain k st l where a: "a = (k, st, l)" by (cases a)
  from Cons.prems have nk: "map_of rows k = None" and dd: "distinct (map fst rows)"
    by (simp_all add: a map_of_eq_None_iff)
  show ?case using Cons.IH [OF dd, of "m(k \<mapsto> (st, l))"] nk
    by (auto simp: a split: option.splits)
qed

lemma rows_from_lookup:
  "distinct (map fst idx) \<Longrightarrow> (w, hits) \<in> set idx \<Longrightarrow>
   \<exists>pre suf. blob_of bo idx = pre @ hits_bytes bo hits @ suf
     \<and> map_of (rows_from bo s idx) w = Some (s + int (length pre), int (length (hits_bytes bo hits)))"
proof (induction idx arbitrary: s)
  case Nil
  then show ?case by simp
next
  case (Cons a idx)
  obtain k hs where a: "a = (k, hs)" by (cases a)
  show ?case
  proof (cases "k = w")
    case True
    with Cons.prems have "hs = hits" by (auto simp: a rev_image_eqI)
    with True have "blob_of bo (a # idx) = [] @ hits_bytes bo hits @ blob_of bo idx
      \<and> map_of (rows_from bo s (a # idx)) w = Some (s + int (length ([] :: byte list)), int (length (hits_bytes bo hits)))"
      by (simp add: a blob_of_def)
    then show ?thesis by blast
  next
    case False
    with Cons.prems have dd: "distinct (map fst idx)" and m: "(w, hits) \<in> set idx"
      by (auto simp: a)
    from Cons.IH [OF dd m, of "s + int (length (hits_bytes bo hs))"] obtain pre suf where
      b: "blob_of bo idx = pre @ hits_bytes bo hits @ suf"
      and r: "map_of (rows_from bo (s + int (length (hits_bytes bo hs))) idx) w
              = Some (s + int (length (hits_bytes bo hs)) + int (length pre),
                      int (length (hits_bytes bo hits)))"
      by blast
    have "blob_of bo (a # idx) = (hits_bytes bo hs @ pre) @ hits_bytes bo hits @ suf"
      using b by (simp add: a blob_of_def)
    moreover have "map_of (rows_from bo s (a # idx)) w
       = Some (s + int (length (hits_bytes bo hs @ pre)), int (length (hits_bytes bo hits)))"
      using r False by (simp add: a)
    ultimately show ?thesis by blast
  qed
qed

lemma index_of_keys: "map fst (index_of dir) = first_seen (concat (map (\<lambda>(p, t). words t) dir))"
  by (simp add: index_of_def comp_def)

lemma all_words_iff:
  "w \<in> set (concat (map (\<lambda>(p, t). words t) dir)) \<longleftrightarrow> (\<exists>d < length dir. w \<in> set (words (snd (dir ! d))))"
proof
  assume "w \<in> set (concat (map (\<lambda>(p, t). words t) dir))"
  then obtain x where x: "x \<in> set dir" and w: "w \<in> set (words (snd x))"
    by (auto simp: case_prod_unfold)
  from x obtain d where "d < length dir" and "dir ! d = x" by (auto simp: in_set_conv_nth)
  with w show "\<exists>d < length dir. w \<in> set (words (snd (dir ! d)))" by blast
next
  assume "\<exists>d < length dir. w \<in> set (words (snd (dir ! d)))"
  then obtain d where d: "d < length dir" and w: "w \<in> set (words (snd (dir ! d)))" by blast
  from d have "dir ! d \<in> set dir" by simp
  with w have "w \<in> (\<Union>x \<in> set dir. set (words (snd x)))" by blast
  then show "w \<in> set (concat (map (\<lambda>(p, t). words t) dir))" by (simp add: case_prod_unfold)
qed

lemma index_of_mem:
  assumes "w \<in> set (concat (map (\<lambda>(p, t). words t) dir))"
  shows "(w, postings dir w) \<in> set (index_of dir)"
proof -
  from assms have "w \<in> set (first_seen (concat (map (\<lambda>(p, t). words t) dir)))"
    by (simp only: set_first_seen)
  then have "(w, postings dir w) \<in> (\<lambda>w. (w, postings dir w)) ` set (first_seen (concat (map (\<lambda>(p, t). words t) dir)))"
    by (rule imageI)
  then show ?thesis by (simp only: index_of_def set_map)
qed

lemma postings_fits32:
  assumes "make_index bo dir = Inr files"
  shows "list_all fits32 (postings dir w)"
proof -
  note r = make_index_result [OF assms]
  have "fits32 h" if h: "h \<in> set (postings dir w)" for h
  proof -
    from postings_doc_id [OF h] have d: "doc_id h < length dir"
      and w: "w \<in> set (words (snd (dir ! doc_id h)))"
      and o: "offsets h = positions w (words (snd (dir ! doc_id h)))" by simp_all
    from d w have "w \<in> set (concat (map (\<lambda>(p, t). words t) dir))"
      unfolding all_words_iff by blast
    then have "(w, postings dir w) \<in> set (index_of dir)" by (rule index_of_mem)
    with r(4) h have b: "doc_id h < 4294967296 \<and> length (offsets h) < 4294967296" by blast
    from d have "dir ! doc_id h \<in> set dir" by simp
    with r(5) have "length (words (snd (dir ! doc_id h))) \<le> 4294967296"
      by (cases "dir ! doc_id h") auto
    with positions_lt [of _ w "words (snd (dir ! doc_id h))"] o
    have "list_all (\<lambda>i. i < 4294967296) (offsets h)"
      by (fastforce simp: list_all_iff)
    with b show ?thesis by (simp add: fits32_def)
  qed
  then show ?thesis by (simp add: list_all_iff)
qed

lemma seek_read_middle:
  "length (pre @ x @ suf) < 9223372036854775807 \<Longrightarrow>
   seek_read (pre @ x @ suf) (int (length pre)) (int (length x)) = Inr x"
  by (simp add: seek_read_def)

lemma seek_read_middle_sound:
  "seek_read (pre @ x @ suf) (int (length pre)) (int (length x)) = Inr bytes \<Longrightarrow> bytes = x"
  by (auto simp: seek_read_def split: if_splits)

lemma lookup_fits32:
  assumes "lookup bo ix word = Inr hits"
  shows "list_all fits32 hits"
proof (cases "terms ix word")
  case None
  with assms show ?thesis by (simp add: lookup_def)
next
  case (Some e)
  with assms obtain bytes where "decode_hits bo bytes 0 [] = Inr hits"
    by (auto simp: lookup_def split: sum.splits prod.splits)
  from decode_hits_sound [OF this] show ?thesis by simp
qed

text \<open>What the text layer and \<open>csv.reader\<close> leave alone: a field without line ends, as
  every word of \<open>words\<close> is.\<close>

lemma read_newlines_id:
  "CHR 0x0D \<notin> set s \<Longrightarrow> CHR 0x0A \<notin> set s \<Longrightarrow> read_newlines b s = s"
  by (induction s arbitrary: b) auto

lemma text_write_id: "CHR 0x0A \<notin> set s \<Longrightarrow> text_write nl s = s"
proof (cases nl)
  case LF
  then show ?thesis by (simp add: text_write_def)
next
  case CRLF
  assume "CHR 0x0A \<notin> set s"
  then have "concat (map (\<lambda>c. if c = CHR 0x0A then [CHR 0x0D, CHR 0x0A] else [c]) s) = s"
    by (induction s) auto
  with CRLF show ?thesis by (simp add: text_write_def)
qed

lemma csv_field_plain:
  "CHR 0x0D \<notin> set s \<Longrightarrow> CHR 0x0A \<notin> set s \<Longrightarrow>
   csv_field nl s = (if 131072 < length s then Inl CsvError else Inr s)"
  by (simp add: csv_field_def universal_newlines_def text_write_id read_newlines_id)


lemma word_char_not_newline: "is_word_char c \<Longrightarrow> c \<noteq> CHR 0x0D \<and> c \<noteq> CHR 0x0A"
  by (auto simp: is_word_char_def)

lemma findall_w_chars:
  "w \<in> set (findall_w s cur) \<Longrightarrow> c \<in> set w \<Longrightarrow> c \<in> set cur \<or> is_word_char c"
proof (induction s arbitrary: cur)
  case Nil
  then show ?case by (auto split: if_splits)
next
  case (Cons a s)
  show ?case
  proof (cases "is_word_char a")
    case True
    with Cons.prems have "w \<in> set (findall_w s (cur @ [a]))" by simp
    from Cons.IH [OF this Cons.prems(2)] True show ?thesis by auto
  next
    case False
    with Cons.prems(1) have "w = cur \<or> w \<in> set (findall_w s [])"
      by (auto split: if_splits)
    then show ?thesis
    proof
      assume "w = cur"
      with Cons.prems(2) show ?thesis by simp
    next
      assume "w \<in> set (findall_w s [])"
      from Cons.IH [OF this Cons.prems(2)] show ?thesis by simp
    qed
  qed
qed

lemma words_plain:
  assumes "w \<in> set (words t)"
  shows "CHR 0x0D \<notin> set w \<and> CHR 0x0A \<notin> set w"
proof -
  have "is_word_char c" if "c \<in> set w" for c
    using findall_w_chars [OF assms [unfolded words_def] that] by simp
  then show ?thesis using word_char_not_newline by blast
qed

text \<open>The two loops of \<open>Index.__init__\<close>, when they come to an end.\<close>

lemma read_documents_result:
  "read_documents nl rows docs = Inr docs' \<Longrightarrow>
   docs' = docs @ map (\<lambda>(l, m). Document (universal_newlines (text_write nl l)) m) rows
   \<and> (rows \<noteq> [] \<longrightarrow> nl = LF)"
proof (induction rows arbitrary: docs)
  case Nil
  then show ?case by simp
next
  case (Cons a rows)
  obtain l m where a: "a = (l, m)" by (cases a)
  from Cons.prems have nl: "nl = LF"
    and r: "read_documents nl rows (docs @ [Document (universal_newlines (text_write nl l)) m])
            = Inr docs'"
    by (cases nl; auto simp: a csv_field_def Let_def split: sum.splits if_splits)+
  from Cons.IH [OF r] nl show ?case by (simp add: a)
qed

lemma read_terms_result:
  "read_terms nl rows t = Inr t' \<Longrightarrow>
   \<forall>r \<in> set rows. CHR 0x0D \<notin> set (fst r) \<and> CHR 0x0A \<notin> set (fst r) \<Longrightarrow>
   t' = fold (\<lambda>(word, start, len) t. t(word \<mapsto> (start, len))) rows t"
proof (induction rows arbitrary: t)
  case Nil
  then show ?case by simp
next
  case (Cons a rows)
  obtain w s l where a: "a = (w, s, l)" by (cases a)
  from Cons.prems(2) have p: "CHR 0x0D \<notin> set w" "CHR 0x0A \<notin> set w"
    and ps: "\<forall>r \<in> set rows. CHR 0x0D \<notin> set (fst r) \<and> CHR 0x0A \<notin> set (fst r)"
    by (simp_all add: a)
  from Cons.prems(1) have r: "read_terms nl rows (t(w \<mapsto> (s, l))) = Inr t'"
    by (auto simp: a csv_field_plain [OF p] split: if_splits)
  from Cons.IH [OF r ps] show ?case by (simp add: a)
qed



lemma terms_rows_plain:
  assumes "r \<in> set (rows_from bo s (index_of dir))"
  shows "CHR 0x0D \<notin> set (fst r) \<and> CHR 0x0A \<notin> set (fst r)"
    and "\<exists>d < length dir. fst r \<in> set (words (snd (dir ! d)))"
proof -
  from assms have "fst r \<in> set (map fst (rows_from bo s (index_of dir)))" by simp
  then have "fst r \<in> set (concat (map (\<lambda>(p, t). words t) dir))"
    by (simp only: rows_from_keys index_of_keys set_first_seen)
  then show d: "\<exists>d < length dir. fst r \<in> set (words (snd (dir ! d)))"
    by (simp only: all_words_iff)
  then show "CHR 0x0D \<notin> set (fst r) \<and> CHR 0x0A \<notin> set (fst r)"
    using words_plain by blast
qed

text \<open>The index loaded from the files that \<open>make_index\<close> wrote.\<close>

lemma Index_init_built:
  assumes "make_index bo dir = Inr files" and "Index_init nl files = Inr ix"
  shows "documents ix =
           map (\<lambda>(p, t). Document (universal_newlines (text_write nl p)) (int (length (words t)))) dir"
    and "terms ix w = map_of (rows_from bo 0 (index_of dir)) w"
    and "index_file ix = index_dat files"
    and "dir \<noteq> [] \<Longrightarrow> nl = LF"
proof -
  note r = make_index_result [OF assms(1)]
  from assms(2) obtain docs t where
    d: "read_documents nl (documents_csv files) [] = Inr docs"
    and t: "read_terms nl (terms_csv files) Map.empty = Inr t"
    and ix: "ix = Index docs t (index_dat files)"
    by (auto simp: Index_init_def split: sum.splits)
  from read_documents_result [OF d] have
    docs: "docs = map (\<lambda>(l, m). Document (universal_newlines (text_write nl l)) m) (documents_csv files)"
    and nl: "documents_csv files \<noteq> [] \<longrightarrow> nl = LF" by simp_all
  show "documents ix =
           map (\<lambda>(p, t). Document (universal_newlines (text_write nl p)) (int (length (words t)))) dir"
    by (simp add: ix docs r(1) comp_def case_prod_unfold)
  show "index_file ix = index_dat files" by (simp add: ix)
  show "nl = LF" if "dir \<noteq> []" using nl that by (simp add: r(1))
  have plain: "\<forall>r \<in> set (terms_csv files). CHR 0x0D \<notin> set (fst r) \<and> CHR 0x0A \<notin> set (fst r)"
    unfolding r(3) using terms_rows_plain(1) by blast
  have dk: "distinct (map fst (terms_csv files))"
    by (simp add: r(3) rows_from_keys distinct_index_of)
  from read_terms_result [OF t plain] have
    "t = fold (\<lambda>(word, start, len) t. t(word \<mapsto> (start, len))) (terms_csv files) Map.empty" .
  with fold_terms [OF dk, of Map.empty w]
  show "terms ix w = map_of (rows_from bo 0 (index_of dir)) w"
    by (simp add: ix r(3) split: option.splits)
qed


text \<open>\<open>lookup\<close> on the loaded index: what it returns is the postings list of the word, and
  it does return when \<open>index.dat\<close> has a size that the host can have for a file.\<close>

lemma lookup_make_index_cases:
  assumes "make_index bo dir = Inr files" and "Index_init nl files = Inr ix"
  shows "(terms ix w = None \<and> postings dir w = [])
    \<or> (\<exists>pre suf. index_file ix = pre @ hits_bytes bo (postings dir w) @ suf
          \<and> index_dat files = index_file ix
          \<and> terms ix w = Some (int (length pre), int (length (hits_bytes bo (postings dir w)))))"
proof -
  note r = make_index_result [OF assms(1)]
  note b = Index_init_built [OF assms]
  show ?thesis
  proof (cases "w \<in> set (concat (map (\<lambda>(p, t). words t) dir))")
    case False
    have "set (map fst (rows_from bo 0 (index_of dir))) = set (concat (map (\<lambda>(p, t). words t) dir))"
      by (simp only: rows_from_keys index_of_keys set_first_seen)
    with False have "w \<notin> fst ` set (rows_from bo 0 (index_of dir))" by simp
    then have "map_of (rows_from bo 0 (index_of dir)) w = None"
      by (simp add: map_of_eq_None_iff)
    then have "terms ix w = None" by (simp add: b(2))
    moreover from False have "postings dir w = []" using postings_empty [of dir w] by blast
    ultimately show ?thesis by simp
  next
    case True
    then have "(w, postings dir w) \<in> set (index_of dir)" by (rule index_of_mem)
    from rows_from_lookup [OF distinct_index_of this, of bo 0] obtain pre suf where
      bl: "blob_of bo (index_of dir) = pre @ hits_bytes bo (postings dir w) @ suf"
      and m: "map_of (rows_from bo 0 (index_of dir)) w
              = Some (int (length pre), int (length (hits_bytes bo (postings dir w))))"
      by auto
    have "index_file ix = pre @ hits_bytes bo (postings dir w) @ suf"
      by (simp add: b(3) r(2) bl)
    moreover have "terms ix w
              = Some (int (length pre), int (length (hits_bytes bo (postings dir w))))"
      using m by (simp add: b(2))
    ultimately show ?thesis using b(3) by auto
  qed
qed

lemma lookup_make_index_sound:
  assumes "make_index bo dir = Inr files" and "Index_init nl files = Inr ix"
    and "lookup bo ix w = Inr hits"
  shows "hits = postings dir w"
proof -
  from lookup_make_index_cases [OF assms(1,2), of w] show ?thesis
  proof
    assume "terms ix w = None \<and> postings dir w = []"
    with assms(3) show ?thesis by (simp add: lookup_def)
  next
    assume "\<exists>pre suf. index_file ix = pre @ hits_bytes bo (postings dir w) @ suf
          \<and> index_dat files = index_file ix
          \<and> terms ix w = Some (int (length pre), int (length (hits_bytes bo (postings dir w))))"
    then obtain pre suf where f: "index_file ix = pre @ hits_bytes bo (postings dir w) @ suf"
      and t: "terms ix w = Some (int (length pre), int (length (hits_bytes bo (postings dir w))))"
      by blast
    from lookup_sound [OF t assms(3)] have
      "seek_read (pre @ hits_bytes bo (postings dir w) @ suf) (int (length pre))
         (int (length (hits_bytes bo (postings dir w)))) = Inr (hits_bytes bo hits)"
      by (simp add: f)
    from seek_read_middle_sound [OF this] have "hits_bytes bo hits = hits_bytes bo (postings dir w)" .
    from hits_bytes_inj [OF this lookup_fits32 [OF assms(3)] postings_fits32 [OF assms(1)]]
    show ?thesis .
  qed
qed

lemma lookup_make_index:
  assumes "make_index bo dir = Inr files" and "Index_init nl files = Inr ix"
    and "length (index_dat files) < 9223372036854775807"
  shows "lookup bo ix w = Inr (postings dir w)"
proof -
  from lookup_make_index_cases [OF assms(1,2), of w] show ?thesis
  proof
    assume "terms ix w = None \<and> postings dir w = []"
    then show ?thesis by (simp add: lookup_def)
  next
    assume "\<exists>pre suf. index_file ix = pre @ hits_bytes bo (postings dir w) @ suf
          \<and> index_dat files = index_file ix
          \<and> terms ix w = Some (int (length pre), int (length (hits_bytes bo (postings dir w))))"
    then obtain pre suf where f: "index_file ix = pre @ hits_bytes bo (postings dir w) @ suf"
      and e: "index_dat files = index_file ix"
      and t: "terms ix w = Some (int (length pre), int (length (hits_bytes bo (postings dir w))))"
      by blast
    have "length (pre @ hits_bytes bo (postings dir w) @ suf) < 9223372036854775807"
      using assms(3) by (simp only: e f)
    from seek_read_middle [OF this] have
      rd: "seek_read (index_file ix) (int (length pre))
             (int (length (hits_bytes bo (postings dir w)))) = Inr (hits_bytes bo (postings dir w))"
      by (simp only: f)
    from lookup_eval [OF t rd postings_fits32 [OF assms(1)]] show ?thesis .
  qed
qed

subsection \<open>The small directories, evaluated\<close>

lemma words_a_b_a: "words ''a b a'' = [''a'', ''b'', ''a'']"
  by (simp add: words_def is_word_char_def lower_char_def)

lemma words_a_b: "words ''a b'' = [''a'', ''b'']"
  by (simp add: words_def is_word_char_def lower_char_def)

lemma words_a: "words ''a'' = [''a'']"
  by (simp add: words_def is_word_char_def lower_char_def)

lemma words_b_b: "words ''b b'' = [''b'', ''b'']"
  by (simp add: words_def is_word_char_def lower_char_def)


lemma make_index_two_dir: "make_index LittleEndian two_dir = Inr two_files"
  by (simp add: two_dir_def two_files_def make_index_def words_a_b words_a merge_doc_index_def
      dict_set_def struct_pack_II_def pack_I_def tobytes_def le_bytes_def)

lemma postings_spec_dir:
  "postings spec_dir ''a'' = [Hit 0 [0, 2]]" "postings spec_dir ''b'' = [Hit 0 [1]]"
  by (simp_all add: postings_def positions_def spec_dir_def words_a_b_a)

lemma postings_two_dir:
  "postings two_dir ''a'' = [Hit 0 [0], Hit 1 [0]]" "postings two_dir ''b'' = [Hit 0 [1]]"
  by (simp_all add: postings_def positions_def two_dir_def words_a_b words_a)


lemma Index_init_two_files: "Index_init LF two_files = Inr two_index"
  by (simp add: Index_init_def two_files_def two_index_def csv_field_def text_write_def
      universal_newlines_def)

lemma length_two_files: "length (index_dat two_files) < 9223372036854775807"
  by (simp add: two_files_def)


lemma lookup_two_index:
  "lookup LittleEndian two_index ''a'' = Inr [Hit 0 [0], Hit 1 [0]]"
  "lookup LittleEndian two_index ''b'' = Inr [Hit 0 [1]]"
  by (simp_all add: lookup_make_index [OF make_index_two_dir Index_init_two_files length_two_files]
      postings_two_dir)

lemma documents_two_index:
  "documents two_index = [Document ''d0.txt'' 2, Document ''d1.txt'' 1]"
  by (simp add: two_index_def)

lemma search_words_two_index_a_b:
  "search_words exact_arith LittleEndian two_index [''a'', ''b''] []
     = Inr [(0, 500 * ln 2), (1, 0)]"
  by (simp add: lookup_two_index documents_two_index exact_arith_def)

lemma search_words_two_index_b_b:
  "search_words exact_arith LittleEndian two_index [''b'', ''b''] [] = Inr [(0, 1000 * ln 2)]"
  by (simp add: lookup_two_index documents_two_index exact_arith_def)

lemma search_two_index_a_b:
  "search exact_arith LittleEndian two_index ''a b''
     = Inr [(''d0.txt'', 500 * ln 2), (''d1.txt'', 0)]"
  by (simp only: search_def words_a_b search_words_two_index_a_b)
    (simp add: documents_two_index)

lemma search_two_index_b_b:
  "search exact_arith LittleEndian two_index ''b b'' = Inr [(''d0.txt'', 1000 * ln 2)]"
  by (simp only: search_def words_b_b search_words_two_index_b_b)
    (simp add: documents_two_index)

text \<open>Exact division gives no quotient that is zero or has a reciprocal below zero.\<close>

lemma quotients_positive_exact: "quotients_positive exact_arith n"
  by (simp add: quotients_positive_def exact_arith_def)







subsection \<open>The written index\<close>




text \<open>Claim C2. In an index written by \<open>make_index\<close> the byte ranges of the term directory
  partition \<open>index.dat\<close>: the offset of each term is the sum of the lengths of the terms
  before it (0 for the first), the lengths add up to the size of the file, every length is
  positive, and the range of a term ends before the range of any later term begins.\<close>

theorem terms_partition_blob:
  assumes "make_index bo dir = Inr files"
  shows "(\<forall>i < length (terms_csv files).
            byte_offsets files ! i = sum_list (take i (byte_lengths files)))
    \<and> (terms_csv files \<noteq> [] \<longrightarrow> byte_offsets files ! 0 = 0)
    \<and> sum_list (byte_lengths files) = int (length (index_dat files))
    \<and> (\<forall>l \<in> set (byte_lengths files). 0 < l)
    \<and> (\<forall>i j. i < j \<and> j < length (terms_csv files) \<longrightarrow>
          byte_offsets files ! i + byte_lengths files ! i \<le> byte_offsets files ! j)"
proof -
  note r = make_index_result [OF assms]
  let ?idx = "index_of dir"
  have len: "length (terms_csv files) = length ?idx" by (simp add: r(3) length_rows_from)
  have lens: "byte_lengths files = map (\<lambda>(w, hits). int (length (hits_bytes bo hits))) ?idx"
    by (simp add: byte_lengths_def r(3) rows_from_lens)
  have starts: "byte_offsets files ! i = sum_list (take i (byte_lengths files))"
    if "i < length (terms_csv files)" for i
    using rows_from_starts [of i ?idx bo 0] that
    by (simp add: byte_offsets_def byte_lengths_def r(3) length_rows_from)
  have first: "byte_offsets files ! 0 = 0" if "terms_csv files \<noteq> []"
    using starts [of 0] that by simp
  have total: "sum_list (byte_lengths files) = int (length (index_dat files))"
    by (simp add: lens sum_lens_blob r(2))
  have pos: "0 < l" if "l \<in> set (byte_lengths files)" for l
  proof -
    from that obtain w hits where m: "(w, hits) \<in> set ?idx"
      and l: "l = int (length (hits_bytes bo hits))" by (auto simp: lens)
    from m have hits: "hits = postings dir w"
      and "w \<in> set (concat (map (\<lambda>(p, t). words t) dir))"
      by (auto simp: index_of_def set_first_seen simp del: set_concat)
    then have "hits \<noteq> []" by (simp only: postings_empty not_not)
    then obtain h hs where "hits = h # hs" by (cases hits) auto
    then show ?thesis by (simp add: l hits_bytes_Cons length_hit_bytes)
  qed
  have nonneg: "\<forall>l \<in> set (byte_lengths files). 0 \<le> l" using pos by force
  have disj: "byte_offsets files ! i + byte_lengths files ! i \<le> byte_offsets files ! j"
    if "i < j" "j < length (terms_csv files)" for i j
  proof -
    have j: "j \<le> length (byte_lengths files)" using that(2) by (simp add: byte_lengths_def)
    from that have i: "i < length (terms_csv files)" by simp
    from sum_list_take_le [OF nonneg that(1) j] starts [OF i] starts [OF that(2)]
    show ?thesis by simp
  qed
  from starts first total pos disj show ?thesis by blast
qed

text \<open>The two-document index: two terms, at bytes 0 to 24 and 24 to 36.\<close>

theorem terms_partition_blob_witness:
  "make_index LittleEndian two_dir = Inr two_files
   \<and> byte_offsets two_files = [0, 24] \<and> byte_lengths two_files = [24, 12]
   \<and> byte_offsets two_files ! 1 = sum_list (take 1 (byte_lengths two_files))
   \<and> sum_list (byte_lengths two_files) = int (length (index_dat two_files))"
proof -
  have "1 < length (terms_csv two_files)" by (simp add: two_files_def)
  with terms_partition_blob [OF make_index_two_dir] have
    "byte_offsets two_files ! 1 = sum_list (take 1 (byte_lengths two_files))"
    and "sum_list (byte_lengths two_files) = int (length (index_dat two_files))"
    by blast+
  moreover have "byte_offsets two_files = [0, 24]" "byte_lengths two_files = [24, 12]"
    by (simp_all add: byte_offsets_def byte_lengths_def two_files_def)
  ultimately show ?thesis using make_index_two_dir by simp
qed

lemma blob_of_index_of:
  "blob_of bo (index_of dir) =
     concat (map (\<lambda>w. hits_bytes bo (postings dir w))
               (first_seen (concat (map (\<lambda>(p, t). words t) dir))))"
  by (simp add: blob_of_def index_of_def comp_def)

lemma sorted_positions: "sorted_wrt (<) (positions w ws)"
  unfolding positions_def by (rule sorted_wrt_filter) simp

lemma pack_I_bytes:
  "pack_I LittleEndian n = [of_nat n, of_nat (n div 256), of_nat (n div 65536), of_nat (n div 16777216)]"
  "pack_I BigEndian n = [of_nat (n div 16777216), of_nat (n div 65536), of_nat (n div 256), of_nat n]"
  by (simp_all add: pack_I_def le_bytes_def)

text \<open>Claim C8, as the code has it. \<open>index.dat\<close> is the concatenation, over the terms in
  the order of first discovery, of the postings of the term, each posting being the
  document id, the number of offsets and the offsets in ascending order, every one of them
  an unsigned value below \<open>2^32\<close> in four bytes, with nothing between them. The four
  bytes are in the byte order of the host: least significant byte first on a little-endian
  host, most significant byte first on a big-endian one.\<close>

theorem index_dat_layout:
  assumes "make_index bo dir = Inr files"
  shows "index_dat files =
           concat (map (\<lambda>w. concat (map (\<lambda>h. pack_I bo (doc_id h)
                                              @ pack_I bo (length (offsets h))
                                              @ concat (map (pack_I bo) (offsets h)))
                                    (postings dir w)))
                     (first_seen (concat (map (\<lambda>(p, t). words t) dir))))
    \<and> (\<forall>w. \<forall>h \<in> set (postings dir w).
          sorted_wrt (<) (offsets h) \<and> doc_id h < 4294967296
          \<and> length (offsets h) < 4294967296 \<and> (\<forall>i \<in> set (offsets h). i < 4294967296))
    \<and> (\<forall>n. length (pack_I bo n) = 4 \<and> (n < 4294967296 \<longrightarrow> unpack_I bo (pack_I bo n) = n))
    \<and> (\<forall>n. pack_I LittleEndian n =
              [of_nat n, of_nat (n div 256), of_nat (n div 65536), of_nat (n div 16777216)]
            \<and> pack_I BigEndian n =
              [of_nat (n div 16777216), of_nat (n div 65536), of_nat (n div 256), of_nat n])"
proof -
  note r = make_index_result [OF assms]
  have 1: "index_dat files =
           concat (map (\<lambda>w. concat (map (\<lambda>h. pack_I bo (doc_id h)
                                              @ pack_I bo (length (offsets h))
                                              @ concat (map (pack_I bo) (offsets h)))
                                    (postings dir w)))
                     (first_seen (concat (map (\<lambda>(p, t). words t) dir))))"
    unfolding r(2) blob_of_index_of hits_bytes_def hit_bytes_def tobytes_def ..
  have 2: "sorted_wrt (<) (offsets h) \<and> doc_id h < 4294967296
          \<and> length (offsets h) < 4294967296 \<and> (\<forall>i \<in> set (offsets h). i < 4294967296)"
    if "h \<in> set (postings dir w)" for w h
  proof -
    from postings_fits32 [OF assms, of w] that have "fits32 h" by (simp add: list_all_iff)
    moreover from postings_doc_id [OF that] have "sorted_wrt (<) (offsets h)"
      by (simp add: sorted_positions)
    ultimately show ?thesis by (simp add: fits32_def list_all_iff)
  qed
  from 1 2 show ?thesis
    by (simp add: length_pack_I unpack_pack_I pack_I_bytes)
qed

text \<open>The file written for the two-document directory on a little-endian host.\<close>

theorem index_dat_layout_witness:
  "make_index LittleEndian two_dir = Inr two_files
   \<and> index_dat two_files =
       [0, 0, 0, 0, 1, 0, 0, 0, 0, 0, 0, 0, 1, 0, 0, 0, 1, 0, 0, 0, 0, 0, 0, 0,
        0, 0, 0, 0, 1, 0, 0, 0, 1, 0, 0, 0]
   \<and> index_dat two_files =
       concat (map (\<lambda>w. concat (map (\<lambda>h. pack_I LittleEndian (doc_id h)
                                          @ pack_I LittleEndian (length (offsets h))
                                          @ concat (map (pack_I LittleEndian) (offsets h)))
                                (postings two_dir w)))
                 (first_seen (concat (map (\<lambda>(p, t). words t) two_dir))))"
  using index_dat_layout [OF make_index_two_dir] make_index_two_dir
  by (simp add: two_files_def)

text \<open>Claim C8 as stated fails on a big-endian host: \<open>struct.pack("=II", 0, 1)\<close> there is
  \<open>00 00 00 00 00 00 00 01\<close>, so the count of the only posting is written most significant
  byte first; little-endian records would be \<open>00 00 00 00 01 00 00 00 00 00 00 00\<close>.\<close>

theorem index_dat_big_endian_counterexample:
  "make_index BigEndian [(''doc.txt'', ''a'')] =
     Inr (Files [(''doc.txt'', 1)] [0, 0, 0, 0, 0, 0, 0, 1, 0, 0, 0, 0] [(''a'', 0, 12)])"
  by (simp add: make_index_def words_a merge_doc_index_def
      dict_set_def struct_pack_II_def pack_I_def tobytes_def le_bytes_def)

subsection \<open>Searching a written index\<close>


lemma built_hit_size:
  assumes "make_index bo dir = Inr files" and "Index_init nl files = Inr ix"
    and "h \<in> set (postings dir w)"
  shows "doc_id h < length (documents ix)"
    and "1 \<le> size_doc (documents ix ! doc_id h)"
    and "filename (documents ix ! doc_id h) = universal_newlines (fst (dir ! doc_id h))"
proof -
  from postings_doc_id [OF assms(3)] have d: "doc_id h < length dir"
    and w: "w \<in> set (words (snd (dir ! doc_id h)))" by simp_all
  from d have "dir \<noteq> []" by auto
  with Index_init_built(4) [OF assms(1,2)] have nl: "nl = LF" by simp
  have docs: "documents ix =
      map (\<lambda>(p, t). Document (universal_newlines p) (int (length (words t)))) dir"
    using Index_init_built(1) [OF assms(1,2)] by (simp add: nl text_write_def)
  show "doc_id h < length (documents ix)" using d by (simp add: docs)
  from w have "words (snd (dir ! doc_id h)) \<noteq> []" by auto
  then have "1 \<le> length (words (snd (dir ! doc_id h)))" by (simp add: Suc_le_eq)
  then show "1 \<le> size_doc (documents ix ! doc_id h)"
    using d by (simp add: docs case_prod_unfold)
  show "filename (documents ix ! doc_id h) = universal_newlines (fst (dir ! doc_id h))"
    using d by (simp add: docs case_prod_unfold)
qed

lemma length_concat_option:
  "length (concat (map (\<lambda>d. if P d then [f d] else []) xs)) \<le> length xs"
  by (induction xs) auto

lemma length_postings: "length (postings dir w) \<le> length dir"
  using length_concat_option
    [of "\<lambda>d. w \<in> set (words (snd (dir ! d)))"
        "\<lambda>d. Hit d (positions w (words (snd (dir ! d))))" "[0..<length dir]"]
  by (simp add: postings_def)

lemma search_words_total_built:
  assumes "make_index bo dir = Inr files" and "Index_init nl files = Inr ix"
    and "length (index_dat files) < 9223372036854775807"
    and "quotients_positive fl (length dir)"
  shows "\<exists>scores'. search_words fl bo ix ws scores = Inr scores'"
proof (induction ws arbitrary: scores)
  case Nil
  then show ?case by simp
next
  case (Cons w ws)
  have lk: "lookup bo ix w = Inr (postings dir w)"
    using assms(1,2,3) by (rule lookup_make_index)
  show ?case
  proof (cases "postings dir w = []")
    case True
    with lk Cons.IH [of scores] show ?thesis by simp
  next
    case False
    then obtain h where h: "h \<in> set (postings dir w)" by (cases "postings dir w") auto
    from built_hit_size(1) [OF assms(1,2) h] have ne: "length (documents ix) \<noteq> 0" by auto
    have len: "length (documents ix) = length dir"
      using Index_init_built(1) [OF assms(1,2)] by simp
    let ?df = "int_truediv fl (int (length (postings dir w))) (int (length (documents ix)))"
    from False have "0 < int (length (postings dir w))" by simp
    moreover have "int (length (postings dir w)) \<le> int (length (documents ix))"
      using length_postings [of dir w] by (simp add: len)
    moreover have "int (length (documents ix)) \<le> int (length dir)" by (simp add: len)
    ultimately have q: "?df \<noteq> 0" "0 < float_truediv fl 1 ?df"
      using assms(4) unfolding quotients_positive_def by blast+
    have "\<forall>h \<in> set (postings dir w). doc_id h < length (documents ix)
            \<and> size_doc (documents ix ! doc_id h) \<noteq> 0"
      using built_hit_size(1,2) [OF assms(1,2)] by fastforce
    from score_hits_total [OF this] obtain sc where
      sc: "score_hits fl ix (math_log fl (float_truediv fl 1 ?df)) (postings dir w) scores = Inr sc"
      by blast
    from Cons.IH [of sc] show ?thesis using lk False ne sc q by (simp add: Let_def)
  qed
qed

text \<open>Claim C6. In an index written by \<open>make_index\<close> and loaded, every posting that \<open>lookup\<close>
  returns names a document of the table whose token count is at least 1, so the division by
  the token count in \<open>search\<close> never divides by zero: the loop over the postings, which
  holds that division, raises nothing. \<open>search\<close> on such an index then returns a result for
  every query, when the quotient of two counts of documents never rounds to zero or to a
  value with a reciprocal that is not positive, and \<open>index.dat\<close> has a size that \<open>read\<close>
  accepts.\<close>

theorem tf_division_safe:
  assumes "make_index bo dir = Inr files"
    and "Index_init nl files = Inr ix"
    and "lookup bo ix w = Inr hits"
    and "h \<in> set hits"
  shows "doc_id h < length (documents ix)
    \<and> 1 \<le> size_doc (documents ix ! doc_id h)
    \<and> (\<exists>scores'. score_hits fl ix i hits scores = Inr scores')
    \<and> (quotients_positive fl (length dir) \<and> length (index_dat files) < 9223372036854775807
         \<longrightarrow> (\<exists>res. search fl bo ix query = Inr res))"
proof -
  from lookup_make_index_sound [OF assms(1,2,3)] have hits: "hits = postings dir w" .
  with assms(4) have h: "h \<in> set (postings dir w)" by simp
  have "\<forall>h \<in> set hits. doc_id h < length (documents ix)
            \<and> size_doc (documents ix ! doc_id h) \<noteq> 0"
    using built_hit_size(1,2) [OF assms(1,2)] unfolding hits by fastforce
  from score_hits_total [OF this] have
    loop: "\<exists>scores'. score_hits fl ix i hits scores = Inr scores'" .
  have all: "\<exists>res. search fl bo ix query = Inr res"
    if q: "quotients_positive fl (length dir)"
      and l: "length (index_dat files) < 9223372036854775807"
  proof -
    from search_words_total_built [OF assms(1,2) l q, of "words query" "[]"] obtain sc where
      "search_words fl bo ix (words query) [] = Inr sc" by blast
    then show ?thesis by (simp add: search_def)
  qed
  from built_hit_size(1,2) [OF assms(1,2) h] loop all show ?thesis by blast
qed

text \<open>In the two-document index the postings of \<open>a\<close> name documents of 2 tokens and of
  1 token.\<close>

theorem tf_division_safe_witness:
  "make_index LittleEndian two_dir = Inr two_files
   \<and> Index_init LF two_files = Inr two_index
   \<and> lookup LittleEndian two_index ''a'' = Inr [Hit 0 [0], Hit 1 [0]]
   \<and> size_doc (documents two_index ! doc_id (Hit 1 [0])) = 1
   \<and> (\<exists>scores'. score_hits exact_arith two_index 0 [Hit 0 [0], Hit 1 [0]] [] = Inr scores')
   \<and> (\<exists>res. search exact_arith LittleEndian two_index ''a b'' = Inr res)"
proof -
  have m: "Hit 1 [0] \<in> set [Hit 0 [0], Hit 1 [0]]" by simp
  note t = tf_division_safe [OF make_index_two_dir Index_init_two_files lookup_two_index(1) m,
      of exact_arith 0 "[]" "''a b''"]
  from t have "\<exists>scores'. score_hits exact_arith two_index 0 [Hit 0 [0], Hit 1 [0]] [] = Inr scores'"
    by blast
  moreover from t quotients_positive_exact [of "length two_dir"] length_two_files
  have "\<exists>res. search exact_arith LittleEndian two_index ''a b'' = Inr res" by blast
  ultimately show ?thesis
    using make_index_two_dir Index_init_two_files lookup_two_index(1)
    by (simp add: documents_two_index)
qed



text \<open>The query \<open>a b\<close> on the two-document index returns two pairs, the higher score
  first.\<close>

theorem search_top10_witness:
  "search exact_arith LittleEndian two_index ''a b''
     = Inr [(''d0.txt'', 500 * ln 2), (''d1.txt'', 0)]
   \<and> length [(''d0.txt'', 500 * ln 2), (''d1.txt'', 0 :: real)] \<le> 10
   \<and> sorted_wrt (\<lambda>a b. snd b \<le> snd a) [(''d0.txt'', 500 * ln 2), (''d1.txt'', 0 :: real)]"
proof -
  from search_top10 [OF search_two_index_a_b]
  have "length [(''d0.txt'', 500 * ln 2), (''d1.txt'', 0 :: real)] \<le> 10
   \<and> sorted_wrt (\<lambda>a b. snd b \<le> snd a) [(''d0.txt'', 500 * ln 2), (''d1.txt'', 0 :: real)]"
    by blast
  with search_two_index_a_b show ?thesis by blast
qed

lemma contributions_two_index_b:
  "contributions exact_arith LittleEndian two_index ''b'' 0 = [500 * ln 2]"
  by (simp add: contributions_def lookup_two_index tf_of_def idf_of_def
      documents_two_index exact_arith_def)

lemma contributions_two_index_a:
  "contributions exact_arith LittleEndian two_index ''a'' 1 = [0]"
  by (simp add: contributions_def lookup_two_index tf_of_def idf_of_def
      documents_two_index exact_arith_def)

text \<open>The query \<open>b b\<close> gives document 0 the contribution of \<open>b\<close> added twice.\<close>

theorem search_counts_occurrences_witness:
  "search exact_arith LittleEndian two_index ''b b'' = Inr [(''d0.txt'', 1000 * ln 2)]
   \<and> search_words exact_arith LittleEndian two_index (words ''b b'') [] = Inr [(0, 1000 * ln 2)]
   \<and> contributions exact_arith LittleEndian two_index ''b'' 0 = [500 * ln 2]
   \<and> 1000 * ln 2 =
       foldl (float_add exact_arith) 0
         (concat (map (\<lambda>w. contributions exact_arith LittleEndian two_index w 0) (words ''b b'')))"
proof -
  have sw: "search_words exact_arith LittleEndian two_index (words ''b b'') []
      = Inr [(0, 1000 * ln 2)]"
    by (simp only: words_b_b search_words_two_index_b_b)
  from search_counts_occurrences [OF search_two_index_b_b] obtain scores where
    sc: "search_words exact_arith LittleEndian two_index (words ''b b'') [] = Inr scores"
    and val: "\<forall>(d, s) \<in> set scores.
          s = foldl (float_add exact_arith) 0
                (concat (map (\<lambda>w. contributions exact_arith LittleEndian two_index w d)
                           (words ''b b'')))"
    by blast
  from sc sw have "scores = [(0, 1000 * ln 2)]" by simp
  with val have "1000 * ln 2 =
       foldl (float_add exact_arith) 0
         (concat (map (\<lambda>w. contributions exact_arith LittleEndian two_index w 0) (words ''b b'')))"
    by simp
  with search_two_index_b_b sw contributions_two_index_b show ?thesis by blast
qed

text \<open>For the query \<open>a b\<close> document 1, named by a posting of \<open>a\<close>, has the accumulated
  score 0 and is returned.\<close>

theorem search_keeps_zero_scores_witness:
  "search exact_arith LittleEndian two_index ''a b''
     = Inr [(''d0.txt'', 500 * ln 2), (''d1.txt'', 0)]
   \<and> lookup LittleEndian two_index ''a'' = Inr [Hit 0 [0], Hit 1 [0]]
   \<and> (\<exists>scores s. search_words exact_arith LittleEndian two_index (words ''a b'') [] = Inr scores
         \<and> (1, s) \<in> set scores \<and> s = 0
         \<and> (''d1.txt'', s) \<in> set [(''d0.txt'', 500 * ln 2), (''d1.txt'', 0)])"
proof -
  have sw: "search_words exact_arith LittleEndian two_index (words ''a b'') []
     = Inr [(0, 500 * ln 2), (1, 0)]"
    by (simp only: words_a_b search_words_two_index_a_b)
  have w: "''a'' \<in> set (words ''a b'')" by (simp add: words_a_b)
  have m: "Hit 1 [0] \<in> set [Hit 0 [0], Hit 1 [0]]" by simp
  from search_keeps_zero_scores [OF search_two_index_a_b w lookup_two_index(1) m]
  obtain scores s where
    sc: "search_words exact_arith LittleEndian two_index (words ''a b'') [] = Inr scores"
    and ms: "(doc_id (Hit 1 [0]), s) \<in> set scores"
    and r: "length scores \<le> 10 \<longrightarrow>
        (filename (documents two_index ! doc_id (Hit 1 [0])), s)
          \<in> set [(''d0.txt'', 500 * ln 2), (''d1.txt'', 0)]"
    by blast
  from sc sw have scores: "scores = [(0, 500 * ln 2), (1, 0)]" by simp
  from ms have s: "s = 0" by (simp add: scores)
  from r have "(''d1.txt'', s) \<in> set [(''d0.txt'', 500 * ln 2), (''d1.txt'', 0)]"
    by (simp add: scores documents_two_index)
  with sc ms s search_two_index_a_b lookup_two_index(1) show ?thesis by auto
qed

text \<open>Claim C3 as stated fails on the index of the two documents \<open>a b\<close> and \<open>a\<close>. For the
  query \<open>a b\<close> the word \<open>a\<close> is in both documents, so its \<open>idf\<close> is \<open>log 1 = 0\<close> and both
  documents enter the accumulator with the score 0; the word \<open>b\<close> then adds
  \<open>500 * log 2\<close> to the first document. \<open>search\<close> returns the second document with the score
  0 although the first has a nonzero score.\<close>

theorem search_zero_score_counterexample:
  "make_index LittleEndian [(''d0.txt'', ''a b''), (''d1.txt'', ''a'')] = Inr two_files
   \<and> Index_init LF two_files = Inr two_index
   \<and> search exact_arith LittleEndian two_index ''a b''
       = Inr [(''d0.txt'', 500 * ln 2), (''d1.txt'', 0)]
   \<and> 500 * ln 2 \<noteq> (0 :: real)"
  using make_index_two_dir Index_init_two_files search_two_index_a_b by (simp add: two_dir_def)

end
